theory Spec2Isabelle
  imports Complex_Main
begin

section \<open>JavaScript values\<close>

text \<open>
  A JavaScript number is an IEEE 754 binary64 value. A finite one is kept as the rational
  it denotes, and every arithmetic operation rounds its exact result back to binary64
  (\<open>fl\<close> below), so that \<open>1005000 / 1000 / 1000\<close> is the double next to 1.005 and not
  1.005 itself. Negative zero is not kept apart from zero: the dashboard never divides
  by a computed value and prints no sign of a zero.
\<close>

datatype jsnum = Fin rat | PInf | NInf | NaN

datatype jsval =
    JUndefined
  | JNull
  | JBool bool
  | JNum jsnum
  | JStr string
  | JObj "(string \<times> jsval) list"
  | JArr "jsval list"

text \<open>
  What the browser supplies and the dashboard code only calls: the digits of
  \<open>Number::toString\<close> outside the whole numbers below \<open>2^53\<close> (shortest round-trip
  digits, exponent notation), the parser behind \<open>new Date(v).getTime()\<close>, the two locale
  formatters of \<open>Date\<close>, and the text of a \<open>TypeError\<close>. Every theorem holds for
  any such host.
\<close>

record host =
  numToString_other :: "rat \<Rightarrow> string"
  Date_getTime :: "jsval \<Rightarrow> jsnum"
  toLocaleDateString :: "jsnum \<Rightarrow> string"
  toLocaleTimeString :: "jsnum \<Rightarrow> string"
  TypeError_text :: "string"

subsection \<open>Rounding to binary64\<close>

fun blen :: "nat \<Rightarrow> nat" where
  "blen n = (if n = 0 then 0 else Suc (blen (n div 2)))"

declare blen.simps [simp del]

definition pow2 :: "int \<Rightarrow> rat" where
  "pow2 k = (if 0 \<le> k then 2 ^ nat k else 1 / 2 ^ nat (- k))"

text \<open>\<open>ilog2 q\<close> is the binary exponent of a positive \<open>q\<close>: \<open>2^e \<le> q < 2^(e+1)\<close>.\<close>

definition ilog2 :: "rat \<Rightarrow> int" where
  "ilog2 q = (if 1 \<le> q then int (blen (nat \<lfloor>q\<rfloor>)) - 1
              else - int (blen (nat (\<lceil>1 / q\<rceil> - 1))))"

definition round_even :: "rat \<Rightarrow> int" where
  "round_even y = (let f = \<lfloor>y\<rfloor>; r = y - of_int f in
     if r < 1 / 2 then f else if 1 / 2 < r then f + 1 else if even f then f else f + 1)"

text \<open>
  Round to nearest, ties to even, with 53 significant bits; below \<open>2^-1022\<close> the spacing
  stays \<open>2^-1074\<close> (subnormals), and a result of \<open>2^1024\<close> or more is infinite.
\<close>

definition fl_pos :: "rat \<Rightarrow> jsnum" where
  "fl_pos q = (let e = max (ilog2 q) (- 1022); u = pow2 (e - 52);
                   v = of_int (round_even (q / u)) * u
               in if pow2 1024 \<le> v then PInf else Fin v)"

fun js_neg :: "jsnum \<Rightarrow> jsnum" where
  "js_neg (Fin q) = Fin (- q)"
| "js_neg PInf = NInf"
| "js_neg NInf = PInf"
| "js_neg NaN = NaN"

definition fl :: "rat \<Rightarrow> jsnum" where
  "fl q = (if q = 0 then Fin 0 else if 0 < q then fl_pos q else js_neg (fl_pos (- q)))"

subsection \<open>Arithmetic and comparison\<close>

fun js_div :: "jsnum \<Rightarrow> jsnum \<Rightarrow> jsnum" where
  "js_div NaN _ = NaN"
| "js_div _ NaN = NaN"
| "js_div (Fin x) (Fin y) =
     (if y \<noteq> 0 then fl (x / y) else if x = 0 then NaN else if 0 < x then PInf else NInf)"
| "js_div (Fin x) _ = Fin 0"
| "js_div PInf (Fin y) = (if 0 \<le> y then PInf else NInf)"
| "js_div NInf (Fin y) = (if 0 \<le> y then NInf else PInf)"
| "js_div _ _ = NaN"

fun js_mul :: "jsnum \<Rightarrow> jsnum \<Rightarrow> jsnum" where
  "js_mul NaN _ = NaN"
| "js_mul _ NaN = NaN"
| "js_mul (Fin x) (Fin y) = fl (x * y)"
| "js_mul (Fin x) PInf = (if x = 0 then NaN else if 0 < x then PInf else NInf)"
| "js_mul (Fin x) NInf = (if x = 0 then NaN else if 0 < x then NInf else PInf)"
| "js_mul PInf (Fin y) = (if y = 0 then NaN else if 0 < y then PInf else NInf)"
| "js_mul NInf (Fin y) = (if y = 0 then NaN else if 0 < y then NInf else PInf)"
| "js_mul PInf PInf = PInf"
| "js_mul NInf NInf = PInf"
| "js_mul PInf NInf = NInf"
| "js_mul NInf PInf = NInf"

fun js_sub :: "jsnum \<Rightarrow> jsnum \<Rightarrow> jsnum" where
  "js_sub NaN _ = NaN"
| "js_sub _ NaN = NaN"
| "js_sub (Fin x) (Fin y) = fl (x - y)"
| "js_sub (Fin x) PInf = NInf"
| "js_sub (Fin x) NInf = PInf"
| "js_sub PInf PInf = NaN"
| "js_sub NInf NInf = NaN"
| "js_sub PInf _ = PInf"
| "js_sub NInf _ = NInf"

fun js_add :: "jsnum \<Rightarrow> jsnum \<Rightarrow> jsnum" where
  "js_add a b = js_sub a (js_neg b)"

text \<open>\<open>a <= b\<close> and \<open>a < b\<close> on numbers; every comparison with \<open>NaN\<close> is false.\<close>

fun js_le :: "jsnum \<Rightarrow> jsnum \<Rightarrow> bool" where
  "js_le NaN _ = False"
| "js_le _ NaN = False"
| "js_le (Fin x) (Fin y) = (x \<le> y)"
| "js_le NInf _ = True"
| "js_le _ PInf = True"
| "js_le _ _ = False"

fun js_lt :: "jsnum \<Rightarrow> jsnum \<Rightarrow> bool" where
  "js_lt NaN _ = False"
| "js_lt _ NaN = False"
| "js_lt (Fin x) (Fin y) = (x < y)"
| "js_lt PInf _ = False"
| "js_lt _ NInf = False"
| "js_lt _ _ = True"

fun Math_floor :: "jsnum \<Rightarrow> jsnum" where
  "Math_floor (Fin q) = Fin (of_int \<lfloor>q\<rfloor>)"
| "Math_floor x = x"

text \<open>\<open>Math.round\<close> rounds a half towards plus infinity.\<close>

fun Math_round :: "jsnum \<Rightarrow> jsnum" where
  "Math_round (Fin q) = Fin (of_int \<lfloor>q + 1 / 2\<rfloor>)"
| "Math_round x = x"

subsection \<open>Strings\<close>

text \<open>
  A string is its UTF-8 bytes. The two characters outside ASCII that the dashboard
  prints are the em dash (U+2014) and the degree sign (U+00B0).
\<close>

definition emdash :: string where
  "emdash = [CHR 0xE2, CHR 0x80, CHR 0x94]"

definition degree :: string where
  "degree = [CHR 0xC2, CHR 0xB0]"

definition digit :: "nat \<Rightarrow> char" where
  "digit d = ''0123456789'' ! d"

fun dec :: "nat \<Rightarrow> string" where
  "dec n = (if n < 10 then [digit n] else dec (n div 10) @ [digit (n mod 10)])"

declare dec.simps [simp del]

text \<open>
  \<open>Number::toString\<close> (radix 10). A whole number below \<open>2^53\<close> prints as its decimal
  digits: its neighbours among the doubles are at most 1 away, so no shorter digit
  string reads back as the same double. The digits of every other number are the host's.
\<close>

fun num2str :: "host \<Rightarrow> jsnum \<Rightarrow> string" where
  "num2str H NaN = ''NaN''"
| "num2str H PInf = ''Infinity''"
| "num2str H NInf = ''-Infinity''"
| "num2str H (Fin q) =
     (if of_int \<lfloor>q\<rfloor> = q \<and> \<bar>q\<bar> < 2 ^ 53
      then (if q < 0 then ''-'' else '''') @ dec (nat \<bar>\<lfloor>q\<rfloor>\<bar>)
      else numToString_other H q)"

text \<open>\<open>Number.prototype.toFixed(f)\<close>.\<close>

fun toFixed :: "host \<Rightarrow> jsnum \<Rightarrow> nat \<Rightarrow> string" where
  "toFixed H (Fin q) f =
     (if 10 ^ 21 \<le> \<bar>q\<bar> then num2str H (Fin q)
      else let s = (if q < 0 then ''-'' else '''');
               n = nat \<lfloor>\<bar>q\<bar> * 10 ^ f + 1 / 2\<rfloor>;
               m = dec n
           in if f = 0 then s @ m
              else let m' = (if length m \<le> f then replicate (f + 1 - length m) CHR ''0'' @ m else m);
                       k = length m'
                   in s @ take (k - f) m' @ ''.'' @ drop (k - f) m')"
| "toFixed H x f = num2str H x"

text \<open>\<open>String.prototype.padStart(n, '0')\<close>.\<close>

definition padStart :: "string \<Rightarrow> nat \<Rightarrow> char \<Rightarrow> string" where
  "padStart s n c = replicate (n - length s) c @ s"

text \<open>\<open>String.prototype.replace\<close> with a string pattern: the first occurrence only.\<close>

fun replace_first :: "string \<Rightarrow> string \<Rightarrow> string \<Rightarrow> string" where
  "replace_first pat rep [] = (if pat = [] then rep else [])"
| "replace_first pat rep (c # cs) =
     (if take (length pat) (c # cs) = pat then rep @ drop (length pat) (c # cs)
      else c # replace_first pat rep cs)"

subsection \<open>Values: typeof, truthiness, property access, ToString\<close>

fun is_number :: "jsval \<Rightarrow> bool" where
  "is_number (JNum _) = True"
| "is_number _ = False"

fun truthy :: "jsval \<Rightarrow> bool" where
  "truthy JUndefined = False"
| "truthy JNull = False"
| "truthy (JBool b) = b"
| "truthy (JNum (Fin q)) = (q \<noteq> 0)"
| "truthy (JNum NaN) = False"
| "truthy (JNum _) = True"
| "truthy (JStr s) = (s \<noteq> [])"
| "truthy (JObj _) = True"
| "truthy (JArr _) = True"

text \<open>\<open>v != null\<close>\<close>

fun not_nullish :: "jsval \<Rightarrow> bool" where
  "not_nullish JUndefined = False"
| "not_nullish JNull = False"
| "not_nullish _ = True"

text \<open>
  \<open>v[k]\<close> for a value that is neither \<open>null\<close> nor \<open>undefined\<close> (reading a property of
  those throws, which the callers below check first); \<open>k\<close> is never an array index
  or a built-in name here.
\<close>

fun get_prop :: "jsval \<Rightarrow> string \<Rightarrow> jsval" where
  "get_prop (JObj kvs) k = (case map_of kvs k of None \<Rightarrow> JUndefined | Some v \<Rightarrow> v)"
| "get_prop _ k = JUndefined"

text \<open>\<open>k in v\<close> for an object or array \<open>v\<close>.\<close>

fun has_prop :: "jsval \<Rightarrow> string \<Rightarrow> bool" where
  "has_prop (JObj kvs) k = (map_of kvs k \<noteq> None)"
| "has_prop _ k = False"

fun join_comma :: "string list \<Rightarrow> string" where
  "join_comma [] = []"
| "join_comma [s] = s"
| "join_comma (s # ss) = s @ '','' @ join_comma ss"

fun to_string :: "host \<Rightarrow> jsval \<Rightarrow> string" where
  "to_string H JUndefined = ''undefined''"
| "to_string H JNull = ''null''"
| "to_string H (JBool b) = (if b then ''true'' else ''false'')"
| "to_string H (JNum n) = num2str H n"
| "to_string H (JStr s) = s"
| "to_string H (JObj kvs) = ''[object Object]''"
| "to_string H (JArr vs) =
     join_comma (map (\<lambda>v. if not_nullish v then to_string H v else []) vs)"

section \<open>Formatting\<close>

definition placeholder :: string where
  "placeholder = emdash @ '' MHz''"

definition fmtFreq :: "host \<Rightarrow> jsval \<Rightarrow> string" where
  "fmtFreq H khz =
     (case khz of
        JNum k \<Rightarrow>
          if js_le k (Fin 0) then placeholder
          else let mhz = js_div k (Fin 1000)
               in if js_le (Fin 1000) mhz then toFixed H (js_div mhz (Fin 1000)) 2 @ '' GHz''
                  else num2str H (Math_round mhz) @ '' MHz''
      | _ \<Rightarrow> placeholder)"

definition fmtBounds :: "host \<Rightarrow> jsval \<Rightarrow> jsval \<Rightarrow> string" where
  "fmtBounds H min_khz max_khz =
     (let f = (\<lambda>k. replace_first (emdash @ '' '') [] (fmtFreq H k))
      in f min_khz @ '' / '' @ f max_khz)"

definition fmtUptime :: "host \<Rightarrow> jsval \<Rightarrow> string" where
  "fmtUptime H secs0 =
     (case secs0 of
        JNum secs \<Rightarrow>
          if \<not> js_le (Fin 0) secs then emdash
          else let d = Math_floor (js_div secs (Fin 86400));
                   secs1 = js_sub secs (js_mul d (Fin 86400));
                   h = Math_floor (js_div secs1 (Fin 3600));
                   secs2 = js_sub secs1 (js_mul h (Fin 3600));
                   m = Math_floor (js_div secs2 (Fin 60));
                   s = Math_floor (js_sub secs2 (js_mul m (Fin 60)))
               in (if js_lt (Fin 0) d then num2str H d @ ''d '' else [])
                  @ padStart (num2str H h) 2 CHR ''0'' @ '':''
                  @ padStart (num2str H m) 2 CHR ''0'' @ '':''
                  @ padStart (num2str H s) 2 CHR ''0''
      | _ \<Rightarrow> emdash)"

section \<open>The specification's formats\<close>

text \<open>
  The uptime format in the specification's words, on a whole number of seconds:
  decompose the seconds into days, hours, minutes and seconds and render
  \<open>D"d "HH:MM:SS\<close>, zero-padded, without the day segment when there are zero days.
\<close>

definition pad2 :: "nat \<Rightarrow> string" where
  "pad2 k = (if k < 10 then CHR ''0'' # dec k else dec k)"

definition spec_formatUptime :: "nat \<Rightarrow> string" where
  "spec_formatUptime n =
     (let d = n div 86400; h = n mod 86400 div 3600; m = n mod 3600 div 60; s = n mod 60
      in (if 0 < d then dec d @ ''d '' else []) @ pad2 h @ '':'' @ pad2 m @ '':'' @ pad2 s)"

text \<open>
  A number with two decimal places: the digits of the whole part, a point, and the two
  digits of the hundredths; \<open>n\<close> is the number in hundredths.
\<close>

definition two_decimals :: "nat \<Rightarrow> string" where
  "two_decimals n = dec (n div 100) @ ''.'' @ [digit (n div 10 mod 10), digit (n mod 10)]"

text \<open>
  A bound as the specification has it: the formatted frequency, and the placeholder
  without its dash.
\<close>

definition spec_bound :: "host \<Rightarrow> jsval \<Rightarrow> string" where
  "spec_bound H v = (if fmtFreq H v = placeholder then ''MHz'' else fmtFreq H v)"

text \<open>A host whose \<open>Number::toString\<close> prints no em dash (it prints ASCII only).\<close>

definition plain_host :: "host \<Rightarrow> bool" where
  "plain_host H = (\<forall>q. CHR 0xE2 \<notin> set (numToString_other H q))"

text \<open>The rationals that are doubles: rounding leaves them as they are.\<close>

definition is_double :: "rat \<Rightarrow> bool" where
  "is_double q = (fl q = Fin q)"

section \<open>The page\<close>

text \<open>
  The document is a set of elements, found by id (\<open>getElementById\<close>) or, for elements
  without one, by position. Of an element the dashboard reads and writes \<open>disabled\<close>,
  \<open>value\<close>, \<open>textContent\<close>, the class list and \<open>style.display\<close>.
\<close>

datatype node = ById string | Anon nat

record element =
  disabled :: bool
  el_value :: string
  textContent :: string
  classes :: "string list"
  display :: string

type_synonym document = "node \<Rightarrow> element option"

definition qs :: "document \<Rightarrow> string \<Rightarrow> element option" where
  "qs D i = D (ById i)"

text \<open>\<open>const el = qs(i); if(el) el.field = ...\<close>\<close>

definition upd :: "string \<Rightarrow> (element \<Rightarrow> element) \<Rightarrow> document \<Rightarrow> document" where
  "upd i f D = (case D (ById i) of None \<Rightarrow> D | Some e \<Rightarrow> D(ById i \<mapsto> f e))"

definition classList_add :: "string \<Rightarrow> string list \<Rightarrow> string list" where
  "classList_add c cs = (if c \<in> set cs then cs else cs @ [c])"

definition classList_remove :: "string \<Rightarrow> string list \<Rightarrow> string list" where
  "classList_remove c cs = filter (\<lambda>x. x \<noteq> c) cs"

definition classList_toggle :: "string \<Rightarrow> bool \<Rightarrow> string list \<Rightarrow> string list" where
  "classList_toggle c force cs = (if force then classList_add c cs else classList_remove c cs)"

text \<open>The cache \<open>meta\<close>; its fields \<open>min\<close> and \<open>max\<close> are \<open>m_min\<close> and \<open>m_max\<close> here.\<close>

record meta_cache =
  m_load :: jsval
  m_governor :: jsval
  m_min :: jsval
  m_max :: jsval
  m_up :: jsval
  m_freq :: jsval
  m_temp :: jsval

definition meta_init :: meta_cache where
  "meta_init = \<lparr>m_load = JNull, m_governor = JNull, m_min = JNull, m_max = JNull,
                 m_up = JNull, m_freq = JNull, m_temp = JNull\<rparr>"

text \<open>
  The promise of \<open>unlockFlow\<close>: which of the two dialog buttons have their handler, and
  whether the promise is still waiting to be resolved.
\<close>

record flow_state =
  cancel_set :: bool
  confirm_set :: bool
  pending :: bool

record state =
  doc :: document
  meta :: meta_cache
  win_unlocked :: jsval
  unlocked :: bool
  flow :: flow_state
  lastCpu :: jsnum
  devTimeOffsetMs :: jsnum

text \<open>A call returns, or throws with the state as it was left.\<close>

datatype 'a result = Returned 'a | Threw 'a

fun state_of :: "'a result \<Rightarrow> 'a" where
  "state_of (Returned s) = s"
| "state_of (Threw s) = s"

text \<open>
  What \<open>await fetch(...)\<close> and \<open>await r.json()\<close> give: the request is rejected (with the
  text of the exception), or there is a response with its status and a body that is JSON
  or not (again with the text of the exception). \<open>r.ok\<close> is a status from 200 to 299.
\<close>

datatype body = BadJson string | Json jsval

datatype fetch_result = Rejected string | Response nat body


section \<open>Meta cache\<close>

fun num_of :: "jsval \<Rightarrow> jsnum" where
  "num_of (JNum n) = n"
| "num_of _ = NaN"

definition setFreqTemp :: "host \<Rightarrow> jsval \<Rightarrow> jsval \<Rightarrow> document \<Rightarrow> document" where
  "setFreqTemp H freq_khz temp_c D =
     (let D1 = upd ''cpuFreq'' (\<lambda>e. e\<lparr>textContent := fmtFreq H freq_khz\<rparr>) D;
          has = is_number temp_c;
          D2 = upd ''rowTemp'' (\<lambda>e. e\<lparr>display := (if has then [] else ''none'')\<rparr>) D1
      in if has
         then upd ''cpuTemp''
                (\<lambda>e. e\<lparr>textContent := toFixed H (num_of temp_c) 1 @ '' '' @ degree @ ''C''\<rparr>) D2
         else D2)"

text \<open>Lines 87 to 93 of \<open>setMetaFull\<close>: the merge of the update into the cache.\<close>

definition setMetaFull_merge :: "jsval \<Rightarrow> meta_cache \<Rightarrow> meta_cache" where
  "setMetaFull_merge j M =
     \<lparr>m_load = (if truthy (get_prop j ''load'') then get_prop j ''load'' else m_load M),
      m_governor = (if not_nullish (get_prop j ''governor'') then get_prop j ''governor''
                    else m_governor M),
      m_min = (if not_nullish (get_prop j ''freq_min_khz'') then get_prop j ''freq_min_khz''
               else m_min M),
      m_max = (if not_nullish (get_prop j ''freq_max_khz'') then get_prop j ''freq_max_khz''
               else m_max M),
      m_up = (if not_nullish (get_prop j ''uptime_seconds'') then get_prop j ''uptime_seconds''
              else m_up M),
      m_freq = (if not_nullish (get_prop j ''freq_khz'') then get_prop j ''freq_khz''
                else m_freq M),
      m_temp = (if not_nullish (get_prop j ''temp_c'') then get_prop j ''temp_c''
                else m_temp M)\<rparr>"

text \<open>
  Lines 95 to 103: the displays. \<open>x.toFixed(2)\<close> throws a \<open>TypeError\<close> when \<open>x\<close> is not a
  number, which only the first of the three load values is checked for.
\<close>

definition setMetaFull_render :: "host \<Rightarrow> state \<Rightarrow> state result" where
  "setMetaFull_render H s =
     (let M = meta s;
          D1 = setFreqTemp H (m_freq M) (m_temp M) (doc s);
          L = m_load M;
          rest = (\<lambda>D.
            let D3 = upd ''cpuGov''
                       (\<lambda>e. e\<lparr>textContent := (if truthy (m_governor M)
                                                 then to_string H (m_governor M) else emdash)\<rparr>) D;
                D4 = upd ''cpuBounds''
                       (\<lambda>e. e\<lparr>textContent := fmtBounds H (m_min M) (m_max M)\<rparr>) D3;
                D5 = upd ''cpuUptime'' (\<lambda>e. e\<lparr>textContent := fmtUptime H (m_up M)\<rparr>) D4
            in Returned (s\<lparr>doc := D5\<rparr>))
      in if qs D1 ''cpuLoad'' \<noteq> None \<and> truthy L \<and> is_number (get_prop L ''1m'')
         then if is_number (get_prop L ''5m'') \<and> is_number (get_prop L ''15m'')
              then rest (upd ''cpuLoad''
                     (\<lambda>e. e\<lparr>textContent :=
                        toFixed H (num_of (get_prop L ''1m'')) 2 @ '' / ''
                        @ toFixed H (num_of (get_prop L ''5m'')) 2 @ '' / ''
                        @ toFixed H (num_of (get_prop L ''15m'')) 2\<rparr>) D1)
              else Threw (s\<lparr>doc := D1\<rparr>)
         else rest D1)"

text \<open>Reading \<open>j.load\<close> throws when \<open>j\<close> is \<open>null\<close>, before anything is written.\<close>

definition setMetaFull :: "host \<Rightarrow> jsval \<Rightarrow> state \<Rightarrow> state result" where
  "setMetaFull H j s =
     (if \<not> not_nullish j then Threw s
      else setMetaFull_render H (s\<lparr>meta := setMetaFull_merge j (meta s)\<rparr>))"

section \<open>Lock and unlock\<close>

definition setNetworkFieldState :: "state \<Rightarrow> state" where
  "setNetworkFieldState s =
     (case qs (doc s) ''network_mode'' of
        None \<Rightarrow> s
      | Some modeEl \<Rightarrow>
          let unl = truthy (win_unlocked s);
              isStatic = (el_value modeEl = ''static'')
          in s\<lparr>doc := fold (\<lambda>i. upd i (\<lambda>el.
                   el\<lparr>disabled := (\<not> unl \<or> \<not> isStatic),
                      classes := classList_toggle ''opacity-60'' (\<not> unl \<or> \<not> isStatic) (classes el)\<rparr>))
                 [''ip'', ''subnet'', ''gateway'', ''dns''] (doc s)\<rparr>)"

definition setTimeFieldState :: "state \<Rightarrow> state" where
  "setTimeFieldState s =
     (case qs (doc s) ''time_source'' of
        None \<Rightarrow> s
      | Some srcEl \<Rightarrow>
          let unl = truthy (win_unlocked s);
              isManual = (el_value srcEl = ''manual'')
          in s\<lparr>doc := fold (\<lambda>i. upd i (\<lambda>el.
                   el\<lparr>disabled := (\<not> unl \<or> \<not> isManual),
                      classes := classList_toggle ''opacity-60'' (\<not> unl \<or> \<not> isManual) (classes el)\<rparr>))
                 [''date'', ''time''] (doc s)\<rparr>)"

definition setEditable :: "bool \<Rightarrow> state \<Rightarrow> state" where
  "setEditable enabled s =
     (let D1 = (\<lambda>n. map_option
                  (\<lambda>el. if ''need-unlock'' \<in> set (classes el) then el\<lparr>disabled := \<not> enabled\<rparr> else el)
                  (doc s n));
          D2 = upd ''applyBtn'' (\<lambda>el. el\<lparr>disabled := \<not> enabled\<rparr>) D1
      in setTimeFieldState (setNetworkFieldState (s\<lparr>win_unlocked := JBool enabled, doc := D2\<rparr>)))"

text \<open>The function \<open>refresh\<close> inside \<open>initLockUI\<close>.\<close>

definition initLockUI_refresh :: "state \<Rightarrow> state" where
  "initLockUI_refresh s =
     (let s1 = setEditable (unlocked s) s;
          D1 = upd ''unlockBtn''
                 (\<lambda>e. e\<lparr>textContent := (if unlocked s then ''Lock'' else ''Unlock to Edit'')\<rparr>) (doc s1);
          D2 = upd ''lockStatus''
                 (\<lambda>e. e\<lparr>textContent := (if unlocked s then ''Unlocked'' else ''Locked'')\<rparr>) D1
      in s1\<lparr>doc := D2\<rparr>)"

text \<open>\<open>initLockUI\<close>, given \<open>window.IS_UNLOCKED\<close>.\<close>

definition initLockUI :: "jsval \<Rightarrow> state \<Rightarrow> state" where
  "initLockUI is_unlocked s = initLockUI_refresh (s\<lparr>unlocked := truthy is_unlocked\<rparr>)"

text \<open>
  \<open>unlockFlow\<close> up to the point where it waits for a click in the dialog. Writing to a
  missing element throws; an exception inside the promise's function rejects the promise
  and is not thrown to the caller, whose \<open>await\<close> then throws.
\<close>

definition unlockFlow :: "state \<Rightarrow> state result" where
  "unlockFlow s =
     (case qs (doc s) ''unlockErr'' of
        None \<Rightarrow> Threw s
      | Some _ \<Rightarrow>
          let D1 = upd ''unlockErr'' (\<lambda>e. e\<lparr>textContent := []\<rparr>) (doc s) in
          case qs D1 ''unlockModal'' of
            None \<Rightarrow> Threw (s\<lparr>doc := D1\<rparr>)
          | Some _ \<Rightarrow>
              let D2 = upd ''unlockModal''
                         (\<lambda>e. e\<lparr>classes := classList_remove ''hidden'' (classes e)\<rparr>) D1 in
              case qs D2 ''pwdInput'' of
                None \<Rightarrow> Threw (s\<lparr>doc := D2\<rparr>)
              | Some _ \<Rightarrow>
                  let D3 = upd ''pwdInput'' (\<lambda>e. e\<lparr>el_value := []\<rparr>) D2;
                      s3 = s\<lparr>doc := D3\<rparr> in
                  if qs D3 ''cancelUnlock'' = None then Threw s3
                  else if qs D3 ''confirmUnlock'' = None
                  then Threw (s3\<lparr>flow := (flow s)\<lparr>cancel_set := True, pending := False\<rparr>\<rparr>)
                  else Returned (s3\<lparr>flow := \<lparr>cancel_set = True, confirm_set = True,
                                               pending = True\<rparr>\<rparr>))"





text \<open>
  The click handler of the unlock button (there is none without the button). When
  unlocked it waits for the lock request, whose response it does not look at; when the
  request is rejected the \<open>await\<close> throws and the handler stops there.
\<close>

definition unlockBtn_click :: "fetch_result \<Rightarrow> state \<Rightarrow> state result" where
  "unlockBtn_click lock_request s =
     (if qs (doc s) ''unlockBtn'' = None then Returned s
      else if unlocked s
      then (case lock_request of
              Rejected e \<Rightarrow> Threw s
            | Response st b \<Rightarrow> Returned (initLockUI_refresh (s\<lparr>unlocked := False\<rparr>)))
      else unlockFlow s)"

section \<open>Submitting the configuration\<close>






text \<open>
  \<open>applyConfig\<close>, given what the submit request gave. Reading the value of a missing form
  field throws before the request is sent. A body that is not JSON counts as \<open>{}\<close>; a
  \<open>null\<close> body makes \<open>j.message\<close> throw, which the \<open>catch\<close> reports.
\<close>




section \<open>The clock, the snapshot poll and the push channel\<close>

text \<open>\<open>now\<close> is what \<open>Date.now()\<close> returns at the call.\<close>

definition updateGeneralClockTick :: "host \<Rightarrow> jsnum \<Rightarrow> state \<Rightarrow> state" where
  "updateGeneralClockTick H now s =
     (let d = js_add now (devTimeOffsetMs s)
      in s\<lparr>doc := upd ''genTime'' (\<lambda>e. e\<lparr>textContent := toLocaleTimeString H d\<rparr>)
                    (upd ''genDate'' (\<lambda>e. e\<lparr>textContent := toLocaleDateString H d\<rparr>) (doc s))\<rparr>)"

definition syncClockFromServer :: "host \<Rightarrow> jsnum \<Rightarrow> jsnum \<Rightarrow> jsval \<Rightarrow> state \<Rightarrow> state" where
  "syncClockFromServer H now now' iso_time s =
     (if \<not> truthy iso_time then s
      else let serverMs = Date_getTime H iso_time
           in if serverMs \<noteq> NaN
              then updateGeneralClockTick H now' (s\<lparr>devTimeOffsetMs := js_sub serverMs now\<rparr>)
              else s)"

text \<open>The function \<open>refresh\<close> inside \<open>init\<close>; its \<open>catch\<close> swallows every exception.\<close>

definition init_refresh :: "host \<Rightarrow> jsnum \<Rightarrow> jsnum \<Rightarrow> fetch_result \<Rightarrow> state \<Rightarrow> state" where
  "init_refresh H now now' r s =
     (case r of
        Rejected e \<Rightarrow> s
      | Response st (BadJson e) \<Rightarrow> s
      | Response st (Json j) \<Rightarrow>
          (case setMetaFull H j s of
             Threw s' \<Rightarrow> s'
           | Returned s' \<Rightarrow>
               if truthy (get_prop j ''server_time'')
               then syncClockFromServer H now now' (get_prop j ''server_time'') s'
               else s'))"

fun is_object :: "jsval \<Rightarrow> bool" where
  "is_object (JObj _) = True"
| "is_object (JArr _) = True"
| "is_object _ = False"

text \<open>
  The \<open>onmessage\<close> handler of the event source, given \<open>ev.data\<close> parsed (or not JSON).
  \<open>k in j\<close> throws when \<open>j\<close> is not an object.
\<close>

definition es_onmessage :: "host \<Rightarrow> body \<Rightarrow> state \<Rightarrow> state result" where
  "es_onmessage H data s =
     (case data of
        BadJson e \<Rightarrow> Threw s
      | Json j \<Rightarrow>
          if \<not> not_nullish j then Threw s
          else let s1 = (if is_number (get_prop j ''cpu'')
                         then s\<lparr>lastCpu := num_of (get_prop j ''cpu'')\<rparr> else s)
               in if \<not> is_object j then Threw s1
                  else if has_prop j ''freq_khz'' \<or> has_prop j ''temp_c''
                  then Returned (s1\<lparr>doc := setFreqTemp H (get_prop j ''freq_khz'')
                                               (get_prop j ''temp_c'') (doc s1)\<rparr>)
                  else Returned s1)"

text \<open>A run of snapshot polls, each with its clock readings and what its request gave.\<close>

fun polls :: "host \<Rightarrow> (jsnum \<times> jsnum \<times> fetch_result) list \<Rightarrow> state \<Rightarrow> state" where
  "polls H [] s = s"
| "polls H ((now, now', r) # rs) s = polls H rs (init_refresh H now now' r s)"

section \<open>Events\<close>




text \<open>A run of full snapshots through \<open>setMetaFull\<close>.\<close>

definition snapshots :: "host \<Rightarrow> jsval list \<Rightarrow> state \<Rightarrow> state" where
  "snapshots H us s = fold (\<lambda>u t. state_of (setMetaFull H u t)) us s"

section \<open>The specification's merge\<close>

text \<open>
  The specification of a full snapshot, in its words: for each field present and
  non-null in the update, overwrite the cached field; fields absent or null are left
  untouched.
\<close>

definition spec_merge :: "jsval \<Rightarrow> jsval \<Rightarrow> jsval" where
  "spec_merge v cached = (if v = JUndefined \<or> v = JNull then cached else v)"

definition spec_applyFullSnapshot :: "jsval \<Rightarrow> meta_cache \<Rightarrow> meta_cache" where
  "spec_applyFullSnapshot u M =
     \<lparr>m_load = spec_merge (get_prop u ''load'') (m_load M),
      m_governor = spec_merge (get_prop u ''governor'') (m_governor M),
      m_min = spec_merge (get_prop u ''freq_min_khz'') (m_min M),
      m_max = spec_merge (get_prop u ''freq_max_khz'') (m_max M),
      m_up = spec_merge (get_prop u ''uptime_seconds'') (m_up M),
      m_freq = spec_merge (get_prop u ''freq_khz'') (m_freq M),
      m_temp = spec_merge (get_prop u ''temp_c'') (m_temp M)\<rparr>"

text \<open>The cache field that a key of the update is merged into.\<close>

definition field_names :: "string list" where
  "field_names = [''load'', ''governor'', ''freq_min_khz'', ''freq_max_khz'',
                  ''uptime_seconds'', ''freq_khz'', ''temp_c'']"

definition cache_field :: "string \<Rightarrow> meta_cache \<Rightarrow> jsval" where
  "cache_field k M =
     (if k = ''load'' then m_load M
      else if k = ''governor'' then m_governor M
      else if k = ''freq_min_khz'' then m_min M
      else if k = ''freq_max_khz'' then m_max M
      else if k = ''uptime_seconds'' then m_up M
      else if k = ''freq_khz'' then m_freq M
      else if k = ''temp_c'' then m_temp M
      else JUndefined)"

section \<open>A sample page\<close>

definition blank :: element where
  "blank = \<lparr>disabled = False, el_value = [], textContent = [], classes = [], display = []\<rparr>"

definition locked_field :: element where
  "locked_field = blank\<lparr>disabled := True, classes := [''need-unlock'']\<rparr>"

definition sample_doc :: document where
  "sample_doc =
     (\<lambda>n. None)
     (ById ''cpuFreq'' \<mapsto> blank\<lparr>textContent := ''1.50 GHz''\<rparr>,
      ById ''rowTemp'' \<mapsto> blank,
      ById ''cpuTemp'' \<mapsto> blank\<lparr>textContent := ''45.0 '' @ degree @ ''C''\<rparr>,
      ById ''unlockBtn'' \<mapsto> blank\<lparr>textContent := ''Unlock to Edit''\<rparr>,
      ById ''lockStatus'' \<mapsto> blank\<lparr>textContent := ''Locked''\<rparr>,
      ById ''unlockModal'' \<mapsto> blank\<lparr>classes := [''hidden'']\<rparr>,
      ById ''unlockErr'' \<mapsto> blank,
      ById ''pwdInput'' \<mapsto> blank,
      ById ''cancelUnlock'' \<mapsto> blank,
      ById ''confirmUnlock'' \<mapsto> blank,
      ById ''applyBtn'' \<mapsto> blank\<lparr>disabled := True\<rparr>,
      ById ''msg'' \<mapsto> blank,
      ById ''hostname'' \<mapsto> locked_field\<lparr>el_value := ''beaglebone''\<rparr>,
      ById ''network_mode'' \<mapsto> locked_field\<lparr>el_value := ''dhcp''\<rparr>,
      ById ''ip'' \<mapsto> locked_field,
      ById ''subnet'' \<mapsto> locked_field,
      ById ''gateway'' \<mapsto> locked_field,
      ById ''dns'' \<mapsto> locked_field,
      ById ''pressure_unit'' \<mapsto> locked_field,
      ById ''temperature_unit'' \<mapsto> locked_field,
      ById ''mode'' \<mapsto> locked_field,
      ById ''time_source'' \<mapsto> locked_field\<lparr>el_value := ''manual''\<rparr>,
      ById ''date'' \<mapsto> locked_field,
      ById ''time'' \<mapsto> locked_field,
      ById ''instrument_name'' \<mapsto> locked_field,
      ById ''instrument_ip'' \<mapsto> locked_field)"

definition sample_meta :: meta_cache where
  "sample_meta = meta_init\<lparr>m_governor := JStr ''ondemand'', m_freq := JNum (Fin 1500000),
                             m_temp := JNum (Fin 45)\<rparr>"

definition sample_locked :: state where
  "sample_locked =
     \<lparr>doc = sample_doc, meta = sample_meta, win_unlocked = JBool False, unlocked = False,
      flow = \<lparr>cancel_set = False, confirm_set = False, pending = False\<rparr>,
      lastCpu = Fin 0, devTimeOffsetMs = Fin 0\<rparr>"




text \<open>The same page unlocked.\<close>

definition sample_unlocked :: state where
  "sample_unlocked = sample_locked\<lparr>unlocked := True, win_unlocked := JBool True,
     doc := (doc (setEditable True sample_locked))
              (ById ''unlockBtn'' \<mapsto> blank\<lparr>textContent := ''Lock''\<rparr>,
               ById ''lockStatus'' \<mapsto> blank\<lparr>textContent := ''Unlocked''\<rparr>)\<rparr>"

text \<open>A host whose clock parser reads one timestamp and nothing else.\<close>

definition sample_host :: host where
  "sample_host =
     \<lparr>numToString_other = (\<lambda>q. ''?''),
      Date_getTime = (\<lambda>v. if v = JStr ''2024-01-01T00:00:00Z'' then Fin 1704067200000 else NaN),
      toLocaleDateString = (\<lambda>t. ''date''),
      toLocaleTimeString = (\<lambda>t. ''time''),
      TypeError_text = ''TypeError''\<rparr>"


definition sample_fast_fields :: jsval where
  "sample_fast_fields = JObj [(''freq_khz'', JNum (Fin 900000)), (''temp_c'', JNull)]"

text \<open>A load record, a full snapshot that carries it, and an update whose load is 0.\<close>

definition sample_load :: jsval where
  "sample_load = JObj [(''1m'', JNum (Fin (1 / 2))), (''5m'', JNum (Fin (1 / 4))),
                       (''15m'', JNum (Fin (1 / 8)))]"

definition sample_full :: jsval where
  "sample_full = JObj [(''load'', sample_load), (''governor'', JStr ''performance'')]"

definition load_zero :: jsval where
  "load_zero = JObj [(''load'', JNum (Fin 0))]"

definition sample_loaded :: state where
  "sample_loaded = sample_locked\<lparr>meta := sample_meta\<lparr>m_load := sample_load\<rparr>\<rparr>"





section \<open>Properties\<close>

subsection \<open>Elements\<close>

lemma qs_upd_same: "qs (upd i f D) i = map_option f (qs D i)"
  by (simp add: qs_def upd_def split: option.splits)

lemma qs_upd_other: "i \<noteq> k \<Longrightarrow> qs (upd i f D) k = qs D k"
  by (simp add: qs_def upd_def split: option.splits)

lemma upd_Anon: "upd i f D (Anon n) = D (Anon n)"
  by (simp add: upd_def split: option.splits)

lemma upd_ById: "upd i f D (ById k) = (if k = i then map_option f (D (ById i)) else D (ById k))"
  by (simp add: upd_def split: option.splits)

subsection \<open>Dependent fields\<close>

lemma sample_doc_qs:
  "qs (doc sample_locked) ''network_mode'' = Some (locked_field\<lparr>el_value := ''dhcp''\<rparr>)"
  "qs (doc sample_locked) ''time_source'' = Some (locked_field\<lparr>el_value := ''manual''\<rparr>)"
  "qs (doc sample_locked) ''ip'' = Some locked_field"
  "qs (doc sample_locked) ''date'' = Some locked_field"
  by (simp_all add: sample_locked_def sample_doc_def qs_def)

lemma setNetworkFieldState_field:
  assumes "qs (doc s) ''network_mode'' = Some sel"
    and "i \<in> set [''ip'', ''subnet'', ''gateway'', ''dns'']"
    and "qs (doc s) i = Some el"
  shows "map_option disabled (qs (doc (setNetworkFieldState s)) i)
         = Some (\<not> (truthy (win_unlocked s) \<and> el_value sel = ''static''))"
  using assms
  by (auto simp: setNetworkFieldState_def qs_upd_same qs_upd_other Let_def)

lemma setTimeFieldState_field:
  assumes "qs (doc s) ''time_source'' = Some sel"
    and "i \<in> set [''date'', ''time'']"
    and "qs (doc s) i = Some el"
  shows "map_option disabled (qs (doc (setTimeFieldState s)) i)
         = Some (\<not> (truthy (win_unlocked s) \<and> el_value sel = ''manual''))"
  using assms
  by (auto simp: setTimeFieldState_def qs_upd_same qs_upd_other Let_def)

lemma setNetworkFieldState_other:
  assumes "i \<notin> set [''ip'', ''subnet'', ''gateway'', ''dns'']"
  shows "qs (doc (setNetworkFieldState s)) i = qs (doc s) i"
  using assms
  by (auto simp: setNetworkFieldState_def qs_upd_other Let_def split: option.splits)

lemma setTimeFieldState_other:
  assumes "i \<notin> set [''date'', ''time'']"
  shows "qs (doc (setTimeFieldState s)) i = qs (doc s) i"
  using assms
  by (auto simp: setTimeFieldState_def qs_upd_other Let_def split: option.splits)

lemma setNetworkFieldState_win: "win_unlocked (setNetworkFieldState s) = win_unlocked s"
  by (simp add: setNetworkFieldState_def Let_def split: option.splits)

lemma setTimeFieldState_win: "win_unlocked (setTimeFieldState s) = win_unlocked s"
  by (simp add: setTimeFieldState_def Let_def split: option.splits)

text \<open>The state that \<open>setEditable\<close> hands to the two dependent-field helpers.\<close>

lemma setEditable_unfold:
  "setEditable b s = setTimeFieldState (setNetworkFieldState
     (s\<lparr>win_unlocked := JBool b,
        doc := upd ''applyBtn'' (\<lambda>el. el\<lparr>disabled := \<not> b\<rparr>)
                 (\<lambda>n. map_option
                    (\<lambda>el. if ''need-unlock'' \<in> set (classes el) then el\<lparr>disabled := \<not> b\<rparr> else el)
                    (doc s n))\<rparr>))"
  by (simp add: setEditable_def Let_def)

lemma qs_unlock_pass:
  assumes "qs (doc s) i = Some el" and "i \<noteq> ''applyBtn''"
  shows "\<exists>el'. qs (upd ''applyBtn'' f
            (\<lambda>n. map_option
                    (\<lambda>el. if ''need-unlock'' \<in> set (classes el) then el\<lparr>disabled := \<not> b\<rparr> else el)
                    (doc s n))) i = Some el' \<and> el_value el' = el_value el"
  using assms by (auto simp: qs_def upd_def split: option.splits)

lemma setEditable_network:
  assumes "qs (doc s) ''network_mode'' = Some sel"
    and "i \<in> set [''ip'', ''subnet'', ''gateway'', ''dns'']"
    and "qs (doc s) i = Some el"
  shows "map_option disabled (qs (doc (setEditable b s)) i)
         = Some (\<not> (b \<and> el_value sel = ''static''))"
proof -
  let ?s0 = "s\<lparr>win_unlocked := JBool b,
        doc := upd ''applyBtn'' (\<lambda>el. el\<lparr>disabled := \<not> b\<rparr>)
                 (\<lambda>n. map_option
                    (\<lambda>el. if ''need-unlock'' \<in> set (classes el) then el\<lparr>disabled := \<not> b\<rparr> else el)
                    (doc s n))\<rparr>"
  obtain sel' where sel': "qs (doc ?s0) ''network_mode'' = Some sel'" "el_value sel' = el_value sel"
    using qs_unlock_pass[OF assms(1), of "\<lambda>el. el\<lparr>disabled := \<not> b\<rparr>" b] by auto
  have "i \<noteq> ''applyBtn''" using assms(2) by auto
  then obtain el' where el': "qs (doc ?s0) i = Some el'"
    using qs_unlock_pass[OF assms(3), of "\<lambda>el. el\<lparr>disabled := \<not> b\<rparr>" b] by auto
  have "map_option disabled (qs (doc (setNetworkFieldState ?s0)) i)
        = Some (\<not> (truthy (win_unlocked ?s0) \<and> el_value sel' = ''static''))"
    by (rule setNetworkFieldState_field[OF sel'(1) assms(2) el'])
  moreover have "i \<notin> set [''date'', ''time'']" using assms(2) by auto
  ultimately show ?thesis
    by (simp add: setEditable_unfold setTimeFieldState_other sel'(2))
qed

lemma setEditable_time:
  assumes "qs (doc s) ''time_source'' = Some sel"
    and "i \<in> set [''date'', ''time'']"
    and "qs (doc s) i = Some el"
  shows "map_option disabled (qs (doc (setEditable b s)) i)
         = Some (\<not> (b \<and> el_value sel = ''manual''))"
proof -
  let ?s0 = "s\<lparr>win_unlocked := JBool b,
        doc := upd ''applyBtn'' (\<lambda>el. el\<lparr>disabled := \<not> b\<rparr>)
                 (\<lambda>n. map_option
                    (\<lambda>el. if ''need-unlock'' \<in> set (classes el) then el\<lparr>disabled := \<not> b\<rparr> else el)
                    (doc s n))\<rparr>"
  let ?s1 = "setNetworkFieldState ?s0"
  have ni: "i \<notin> set [''ip'', ''subnet'', ''gateway'', ''dns'']" "i \<noteq> ''applyBtn''"
    using assms(2) by auto
  have ns: "''time_source'' \<notin> set [''ip'', ''subnet'', ''gateway'', ''dns'']" by simp
  obtain sel' where sel': "qs (doc ?s0) ''time_source'' = Some sel'" "el_value sel' = el_value sel"
    using qs_unlock_pass[OF assms(1), of "\<lambda>el. el\<lparr>disabled := \<not> b\<rparr>" b] by auto
  obtain el' where el': "qs (doc ?s0) i = Some el'"
    using qs_unlock_pass[OF assms(3) ni(2), of "\<lambda>el. el\<lparr>disabled := \<not> b\<rparr>" b] by auto
  have a: "qs (doc ?s1) ''time_source'' = Some sel'"
    using setNetworkFieldState_other[OF ns] sel'(1) by simp
  have b: "qs (doc ?s1) i = Some el'"
    using setNetworkFieldState_other[OF ni(1)] el' by simp
  have "map_option disabled (qs (doc (setTimeFieldState ?s1)) i)
        = Some (\<not> (truthy (win_unlocked ?s1) \<and> el_value sel' = ''manual''))"
    by (rule setTimeFieldState_field[OF a assms(2) b])
  then show ?thesis
    by (simp add: setEditable_unfold setNetworkFieldState_win sel'(2))
qed

text \<open>
  Claim C3. After the dependent fields are recomputed, by \<open>setNetworkFieldState\<close> or
  \<open>setTimeFieldState\<close> themselves or by \<open>setEditable\<close> on a change of the lock state, a
  network field (\<open>ip\<close>, \<open>subnet\<close>, \<open>gateway\<close>, \<open>dns\<close>) is enabled if and only if the page is
  unlocked and \<open>network_mode\<close> holds \<open>static\<close>, and a time field (\<open>date\<close>, \<open>time\<close>) if and
  only if the page is unlocked and \<open>time_source\<close> holds \<open>manual\<close>. So a locked page has all
  of them disabled whatever the selectors hold, and an unlocked page with \<open>network_mode\<close>
  at \<open>dhcp\<close> has the network fields disabled.
\<close>

theorem dependent_field_enablement:
  "(qs (doc s) ''network_mode'' = Some sel \<and> i \<in> set [''ip'', ''subnet'', ''gateway'', ''dns'']
      \<and> qs (doc s) i = Some el
    \<longrightarrow> map_option disabled (qs (doc (setNetworkFieldState s)) i)
          = Some (\<not> (truthy (win_unlocked s) \<and> el_value sel = ''static''))
      \<and> map_option disabled (qs (doc (setEditable b s)) i)
          = Some (\<not> (b \<and> el_value sel = ''static'')))
   \<and> (qs (doc s) ''time_source'' = Some src \<and> k \<in> set [''date'', ''time'']
      \<and> qs (doc s) k = Some el'
    \<longrightarrow> map_option disabled (qs (doc (setTimeFieldState s)) k)
          = Some (\<not> (truthy (win_unlocked s) \<and> el_value src = ''manual''))
      \<and> map_option disabled (qs (doc (setEditable b s)) k)
          = Some (\<not> (b \<and> el_value src = ''manual'')))"
  using setNetworkFieldState_field setEditable_network setTimeFieldState_field setEditable_time
  by blast

theorem dependent_field_enablement_witness:
  "qs (doc sample_locked) ''network_mode'' = Some (locked_field\<lparr>el_value := ''dhcp''\<rparr>)
   \<and> ''ip'' \<in> set [''ip'', ''subnet'', ''gateway'', ''dns'']
   \<and> qs (doc sample_locked) ''ip'' = Some locked_field
   \<and> qs (doc sample_locked) ''time_source'' = Some (locked_field\<lparr>el_value := ''manual''\<rparr>)
   \<and> ''date'' \<in> set [''date'', ''time'']
   \<and> qs (doc sample_locked) ''date'' = Some locked_field
   \<and> map_option disabled (qs (doc (setEditable True sample_locked)) ''ip'') = Some True
   \<and> map_option disabled (qs (doc (setEditable True sample_locked)) ''date'') = Some False
   \<and> map_option disabled (qs (doc (setEditable False sample_locked)) ''date'') = Some True"
  using dependent_field_enablement[of sample_locked "locked_field\<lparr>el_value := ''dhcp''\<rparr>" "''ip''" locked_field
          True "locked_field\<lparr>el_value := ''manual''\<rparr>" "''date''" locked_field]
        dependent_field_enablement[of sample_locked "locked_field\<lparr>el_value := ''dhcp''\<rparr>" "''ip''" locked_field
          False "locked_field\<lparr>el_value := ''manual''\<rparr>" "''date''" locked_field]
  by (simp add: sample_doc_qs)

subsection \<open>The cache\<close>

lemma not_nullish_iff: "not_nullish v \<longleftrightarrow> v \<noteq> JUndefined \<and> v \<noteq> JNull"
  by (cases v) simp_all

lemma truthy_not_nullish: "truthy v \<Longrightarrow> not_nullish v"
  by (cases v) simp_all

lemma get_prop_nullish: "\<not> not_nullish j \<Longrightarrow> get_prop j k = JUndefined"
  by (cases j) simp_all

lemma meta_setMetaFull_render: "meta (state_of (setMetaFull_render H s)) = meta s"
  by (simp add: setMetaFull_render_def Let_def)

lemma meta_setMetaFull:
  "meta (state_of (setMetaFull H j s)) = setMetaFull_merge j (meta s)"
proof (cases "not_nullish j")
  case True
  then show ?thesis by (simp add: setMetaFull_def meta_setMetaFull_render)
next
  case False
  then show ?thesis
    by (simp add: setMetaFull_def setMetaFull_merge_def get_prop_nullish)
qed

lemma merge_is_spec:
  assumes "truthy (get_prop j ''load'') \<or> \<not> not_nullish (get_prop j ''load'')"
  shows "setMetaFull_merge j M = spec_applyFullSnapshot j M"
proof -
  have nn: "(if not_nullish v then v else c) = spec_merge v c" for v c
    by (simp add: spec_merge_def not_nullish_iff)
  have ld: "(if truthy (get_prop j ''load'') then get_prop j ''load'' else m_load M)
        = spec_merge (get_prop j ''load'') (m_load M)"
    using assms truthy_not_nullish[of "get_prop j ''load''"]
    by (auto simp: spec_merge_def not_nullish_iff)
  show ?thesis
    unfolding setMetaFull_merge_def spec_applyFullSnapshot_def nn ld ..
qed

lemma cache_field_simps:
  "cache_field ''load'' M = m_load M"
  "cache_field ''governor'' M = m_governor M"
  "cache_field ''freq_min_khz'' M = m_min M"
  "cache_field ''freq_max_khz'' M = m_max M"
  "cache_field ''uptime_seconds'' M = m_up M"
  "cache_field ''freq_khz'' M = m_freq M"
  "cache_field ''temp_c'' M = m_temp M"
  by (simp_all add: cache_field_def)

lemma field_names_cases:
  assumes "k \<in> set field_names"
  obtains "k = ''load''" | "k = ''governor''" | "k = ''freq_min_khz''" | "k = ''freq_max_khz''"
    | "k = ''uptime_seconds''" | "k = ''freq_khz''" | "k = ''temp_c''"
  using assms unfolding field_names_def by fastforce

lemma merge_field:
  assumes "k \<in> set field_names" and "k \<noteq> ''load''"
  shows "cache_field k (setMetaFull_merge j M) = spec_merge (get_prop j k) (cache_field k M)"
proof -
  have nn: "(if not_nullish v then v else c) = spec_merge v c" for v c
    by (simp add: spec_merge_def not_nullish_iff)
  from assms(1) show ?thesis
  proof (cases rule: field_names_cases)
    case 1
    with assms(2) show ?thesis by simp
  next
    case 2
    then show ?thesis by (simp add: cache_field_simps setMetaFull_merge_def nn)
  next
    case 3
    then show ?thesis by (simp add: cache_field_simps setMetaFull_merge_def nn)
  next
    case 4
    then show ?thesis by (simp add: cache_field_simps setMetaFull_merge_def nn)
  next
    case 5
    then show ?thesis by (simp add: cache_field_simps setMetaFull_merge_def nn)
  next
    case 6
    then show ?thesis by (simp add: cache_field_simps setMetaFull_merge_def nn)
  next
    case 7
    then show ?thesis by (simp add: cache_field_simps setMetaFull_merge_def nn)
  qed
qed

lemma merge_absent:
  assumes "k \<in> set field_names" and "\<not> not_nullish (get_prop j k)"
  shows "cache_field k (setMetaFull_merge j M) = cache_field k M"
proof (cases "k = ''load''")
  case True
  have "\<not> truthy (get_prop j k)"
    using assms(2) truthy_not_nullish by blast
  with True show ?thesis by (simp add: cache_field_simps setMetaFull_merge_def)
next
  case False
  have "spec_merge (get_prop j k) c = c" for c
    using assms(2) by (simp add: spec_merge_def not_nullish_iff)
  with False assms(1) show ?thesis by (simp add: merge_field)
qed

lemma snapshots_absent:
  assumes "k \<in> set field_names"
    and "\<forall>u \<in> set us. \<not> not_nullish (get_prop u k)"
  shows "cache_field k (meta (snapshots H us s)) = cache_field k (meta s)"
  using assms(2)
proof (induction us arbitrary: s)
  case Nil
  then show ?case by (simp add: snapshots_def)
next
  case (Cons u us)
  have "cache_field k (meta (snapshots H (u # us) s))
        = cache_field k (meta (snapshots H us (state_of (setMetaFull H u s))))"
    by (simp add: snapshots_def)
  also have "\<dots> = cache_field k (meta (state_of (setMetaFull H u s)))"
    using Cons by simp
  also have "\<dots> = cache_field k (meta s)"
    using Cons.prems assms(1) by (simp add: meta_setMetaFull merge_absent)
  finally show ?case .
qed

text \<open>
  Claim C1, as amended. Applying a full snapshot with \<open>setMetaFull\<close> overwrites a cache
  field with the update's value when the field is present and non-null in the update,
  and keeps the cached value when it is absent or null: so for the six fields tested
  with \<open>!= null\<close>, for every update. The field \<open>load\<close> is tested for truth instead: it is
  overwritten when the update's \<open>load\<close> is truthy, as every load record is (every object
  is truthy), and kept otherwise. So with a load record, or with \<open>load\<close> null or absent,
  the whole cache is the specification's merge. And after any run of full snapshots, a
  field that is absent or null in each of them has the value it had before the run.
\<close>

theorem setMetaFull_merge_and_preserve:
  "cache_field ''load'' (meta (state_of (setMetaFull H j s)))
     = (if truthy (get_prop j ''load'') then get_prop j ''load''
        else cache_field ''load'' (meta s))
   \<and> (get_prop j ''load'' = JObj fs
      \<longrightarrow> meta (state_of (setMetaFull H j s)) = spec_applyFullSnapshot j (meta s))
   \<and> (truthy (get_prop j ''load'') \<or> \<not> not_nullish (get_prop j ''load'')
      \<longrightarrow> meta (state_of (setMetaFull H j s)) = spec_applyFullSnapshot j (meta s))
   \<and> (k \<in> set field_names \<and> k \<noteq> ''load''
      \<longrightarrow> cache_field k (meta (state_of (setMetaFull H j s)))
          = spec_merge (get_prop j k) (cache_field k (meta s)))
   \<and> (k \<in> set field_names \<and> (\<forall>u \<in> set us. get_prop u k = JUndefined \<or> get_prop u k = JNull)
      \<longrightarrow> cache_field k (meta (snapshots H us s)) = cache_field k (meta s))"
proof (intro conjI impI)
  show "cache_field ''load'' (meta (state_of (setMetaFull H j s)))
     = (if truthy (get_prop j ''load'') then get_prop j ''load''
        else cache_field ''load'' (meta s))"
    by (simp add: meta_setMetaFull cache_field_simps setMetaFull_merge_def)
next
  assume "get_prop j ''load'' = JObj fs"
  then have "truthy (get_prop j ''load'') \<or> \<not> not_nullish (get_prop j ''load'')" by simp
  then show "meta (state_of (setMetaFull H j s)) = spec_applyFullSnapshot j (meta s)"
    by (simp only: meta_setMetaFull merge_is_spec)
next
  assume "truthy (get_prop j ''load'') \<or> \<not> not_nullish (get_prop j ''load'')"
  then show "meta (state_of (setMetaFull H j s)) = spec_applyFullSnapshot j (meta s)"
    by (simp only: meta_setMetaFull merge_is_spec)
next
  assume "k \<in> set field_names \<and> k \<noteq> ''load''"
  then have "k \<in> set field_names" "k \<noteq> ''load''" by simp_all
  then show "cache_field k (meta (state_of (setMetaFull H j s)))
          = spec_merge (get_prop j k) (cache_field k (meta s))"
    by (simp add: meta_setMetaFull merge_field)
next
  assume a: "k \<in> set field_names \<and> (\<forall>u \<in> set us. get_prop u k = JUndefined \<or> get_prop u k = JNull)"
  then have "\<forall>u \<in> set us. \<not> not_nullish (get_prop u k)"
    by (simp add: not_nullish_iff)
  moreover from a have "k \<in> set field_names" by simp
  ultimately show "cache_field k (meta (snapshots H us s)) = cache_field k (meta s)"
    by (simp add: snapshots_absent)
qed

theorem setMetaFull_merge_and_preserve_witness:
  "(truthy (get_prop sample_fast_fields ''load'') \<or> \<not> not_nullish (get_prop sample_fast_fields ''load''))
   \<and> ''governor'' \<in> set field_names \<and> ''governor'' \<noteq> ''load''
   \<and> get_prop sample_fast_fields ''governor'' = JUndefined
   \<and> get_prop (JObj []) ''governor'' = JUndefined
   \<and> m_freq (meta (state_of (setMetaFull sample_host sample_fast_fields sample_locked)))
       = JNum (Fin 900000)
   \<and> m_temp (meta (state_of (setMetaFull sample_host sample_fast_fields sample_locked)))
       = JNum (Fin 45)
   \<and> m_governor (meta (state_of (setMetaFull sample_host sample_fast_fields sample_locked)))
       = JStr ''ondemand''
   \<and> m_governor (meta (snapshots sample_host [sample_fast_fields, JObj []] sample_locked))
       = JStr ''ondemand''
   \<and> get_prop sample_full ''load'' = sample_load
   \<and> meta (state_of (setMetaFull sample_host sample_full sample_locked))
       = sample_meta\<lparr>m_load := sample_load, m_governor := JStr ''performance''\<rparr>"
  using setMetaFull_merge_and_preserve[where j = sample_fast_fields and H = sample_host
          and s = sample_locked and k = "''governor''" and us = "[sample_fast_fields, JObj []]"]
        setMetaFull_merge_and_preserve[where j = sample_full and H = sample_host
          and s = sample_locked and k = "''governor''" and us = "[]"
          and fs = "[(''1m'', JNum (Fin (1 / 2))), (''5m'', JNum (Fin (1 / 4))),
                     (''15m'', JNum (Fin (1 / 8)))]"]
  by (simp add: sample_fast_fields_def sample_full_def sample_load_def field_names_def
        cache_field_simps spec_applyFullSnapshot_def
        spec_merge_def sample_locked_def sample_meta_def meta_init_def)

text \<open>
  An update whose \<open>load\<close> is 0 has the field present and non-null, and the cache keeps
  the load it had: \<open>j.load || meta.load\<close> takes the cached value for every falsy \<open>j.load\<close>.
\<close>

theorem setMetaFull_load_zero_counterexample:
  "get_prop load_zero ''load'' = JNum (Fin 0)
   \<and> not_nullish (get_prop load_zero ''load'')
   \<and> m_load (meta sample_loaded) = sample_load
   \<and> m_load (meta (state_of (setMetaFull sample_host load_zero sample_loaded))) = sample_load
   \<and> m_load (spec_applyFullSnapshot load_zero (meta sample_loaded)) = JNum (Fin 0)
   \<and> sample_load \<noteq> JNum (Fin 0)"
  by (simp add: meta_setMetaFull setMetaFull_merge_def spec_applyFullSnapshot_def spec_merge_def
        load_zero_def sample_loaded_def sample_load_def)

subsection \<open>The clock offset\<close>


lemma offset_tick: "devTimeOffsetMs (updateGeneralClockTick H n s) = devTimeOffsetMs s"
  by (simp add: updateGeneralClockTick_def Let_def)


lemma sync_offset:
  "truthy t \<Longrightarrow> Date_getTime H t \<noteq> NaN \<Longrightarrow>
   devTimeOffsetMs (syncClockFromServer H now now' t s) = js_sub (Date_getTime H t) now"
  by (simp add: syncClockFromServer_def Let_def offset_tick)





subsection \<open>The lock state\<close>

lemma unlocked_setNetworkFieldState: "unlocked (setNetworkFieldState s) = unlocked s"
  by (simp add: setNetworkFieldState_def Let_def split: option.splits)

lemma unlocked_setTimeFieldState: "unlocked (setTimeFieldState s) = unlocked s"
  by (simp add: setTimeFieldState_def Let_def split: option.splits)

lemma unlocked_setEditable: "unlocked (setEditable b s) = unlocked s"
  by (simp add: setEditable_def Let_def unlocked_setNetworkFieldState unlocked_setTimeFieldState)

lemma unlocked_initLockUI_refresh: "unlocked (initLockUI_refresh s) = unlocked s"
  by (simp add: initLockUI_refresh_def Let_def unlocked_setEditable)




















subsection \<open>Submitting\<close>













subsection \<open>The push channel\<close>

lemma sample_temp_row:
  "qs (doc sample_locked) ''rowTemp'' = Some blank"
  "qs (doc sample_locked) ''cpuTemp'' = Some (blank\<lparr>textContent := ''45.0 '' @ degree @ ''C''\<rparr>)"
  "qs (doc sample_locked) ''cpuFreq'' = Some (blank\<lparr>textContent := ''1.50 GHz''\<rparr>)"
  "m_temp (meta sample_locked) = JNum (Fin 45)"
  "m_freq (meta sample_locked) = JNum (Fin 1500000)"
  by (simp_all add: sample_locked_def sample_doc_def qs_def sample_meta_def meta_init_def)

lemma setFreqTemp_rowTemp:
  "qs (setFreqTemp H f t D) ''rowTemp''
   = map_option (\<lambda>e. e\<lparr>display := (if is_number t then [] else ''none'')\<rparr>) (qs D ''rowTemp'')"
  by (simp add: setFreqTemp_def Let_def qs_upd_same qs_upd_other)

lemma setFreqTemp_cpuFreq:
  "qs (setFreqTemp H f t D) ''cpuFreq''
   = map_option (\<lambda>e. e\<lparr>textContent := fmtFreq H f\<rparr>) (qs D ''cpuFreq'')"
  by (simp add: setFreqTemp_def Let_def qs_upd_same qs_upd_other)

lemma es_onmessage_fast:
  assumes "has_prop (JObj kvs) ''freq_khz'' \<or> has_prop (JObj kvs) ''temp_c''"
  shows "doc (state_of (es_onmessage H (Json (JObj kvs)) s))
         = setFreqTemp H (get_prop (JObj kvs) ''freq_khz'') (get_prop (JObj kvs) ''temp_c'') (doc s)"
    and "meta (state_of (es_onmessage H (Json (JObj kvs)) s)) = meta s"
  using assms by (auto simp: es_onmessage_def Let_def)

text \<open>
  Claim C2. The cache holds a numeric temperature and the page shows it. A push message
  that carries only \<open>freq_khz\<close> hides the temperature row, and one that carries only
  \<open>temp_c\<close> replaces the shown frequency by the placeholder: the handler passes the
  message's two fields to \<open>setFreqTemp\<close> as they are, absent ones as \<open>undefined\<close>, where
  \<open>setMetaFull\<close> passes the merged cache.
\<close>

theorem fast_update_resets_absent_field:
  "m_temp (meta sample_locked) = JNum (Fin 45)
   \<and> map_option display (qs (doc sample_locked) ''rowTemp'') = Some []
   \<and> map_option display
        (qs (doc (state_of (es_onmessage sample_host
               (Json (JObj [(''freq_khz'', JNum (Fin 900000))])) sample_locked))) ''rowTemp'')
       = Some ''none''
   \<and> map_option textContent (qs (doc sample_locked) ''cpuFreq'') = Some ''1.50 GHz''
   \<and> map_option textContent
        (qs (doc (state_of (es_onmessage sample_host
               (Json (JObj [(''temp_c'', JNum (Fin 46))])) sample_locked))) ''cpuFreq'')
       = Some placeholder"
  by (simp add: es_onmessage_fast setFreqTemp_rowTemp setFreqTemp_cpuFreq sample_temp_row
        fmtFreq_def blank_def)

subsection \<open>The lock action\<close>

lemma lock_request_rejected:
  "qs (doc s) ''unlockBtn'' \<noteq> None \<Longrightarrow> unlocked s \<Longrightarrow> unlockBtn_click (Rejected e) s = Threw s"
  by (simp add: unlockBtn_click_def)

lemma lock_request_answered:
  "qs (doc s) ''unlockBtn'' \<noteq> None \<Longrightarrow> unlocked s \<Longrightarrow>
   unlockBtn_click (Response st b) s = Returned (initLockUI_refresh (s\<lparr>unlocked := False\<rparr>))"
  by (auto simp: unlockBtn_click_def)

lemma sample_unlocked_facts:
  "unlocked sample_unlocked"
  "qs (doc sample_unlocked) ''unlockBtn'' = Some (blank\<lparr>textContent := ''Lock''\<rparr>)"
  "doc sample_unlocked (ById ''hostname'') = doc (setEditable True sample_locked) (ById ''hostname'')"
  by (simp_all add: sample_unlocked_def qs_def)

lemma hostname_enabled:
  "map_option disabled (doc (setEditable True sample_locked) (ById ''hostname'')) = Some False"
  by (simp add: setEditable_def setNetworkFieldState_def setTimeFieldState_def Let_def
        upd_def qs_def sample_locked_def sample_doc_def locked_field_def blank_def)

text \<open>
  Claim C6. On the unlocked page, with the host name field enabled, a click on the lock
  button whose request is rejected (the network is down) throws at the \<open>await\<close> and leaves
  the state as it was: unlocked, the field enabled.
\<close>

theorem lock_request_rejected_stays_unlocked:
  "unlocked sample_unlocked
   \<and> map_option disabled (doc sample_unlocked (ById ''hostname'')) = Some False
   \<and> unlockBtn_click (Rejected ''TypeError: Failed to fetch'') sample_unlocked = Threw sample_unlocked"
  by (simp add: lock_request_rejected sample_unlocked_facts hostname_enabled)

text \<open>When the lock request is answered, whatever the status, the page does lock.\<close>

lemma upd_keeps_disabled:
  assumes "map_option disabled (D n) = Some True"
  shows "map_option disabled (upd i (\<lambda>el. el\<lparr>disabled := True, classes := g el\<rparr>) D n) = Some True"
  using assms by (cases n) (auto simp: upd_def split: option.splits)

lemma setNetworkFieldState_locked:
  assumes "\<not> truthy (win_unlocked s)" and "map_option disabled (doc s n) = Some True"
  shows "map_option disabled (doc (setNetworkFieldState s) n) = Some True"
proof (cases "qs (doc s) ''network_mode''")
  case None
  with assms show ?thesis by (simp add: setNetworkFieldState_def)
next
  case (Some m)
  with assms(1) show ?thesis
    by (simp add: setNetworkFieldState_def Let_def upd_keeps_disabled assms(2))
qed

lemma setTimeFieldState_locked:
  assumes "\<not> truthy (win_unlocked s)" and "map_option disabled (doc s n) = Some True"
  shows "map_option disabled (doc (setTimeFieldState s) n) = Some True"
proof (cases "qs (doc s) ''time_source''")
  case None
  with assms show ?thesis by (simp add: setTimeFieldState_def)
next
  case (Some m)
  with assms(1) show ?thesis
    by (simp add: setTimeFieldState_def Let_def upd_keeps_disabled assms(2))
qed

lemma setEditable_False_disables:
  assumes "doc s n = Some el" and "''need-unlock'' \<in> set (classes el)"
  shows "map_option disabled (doc (setEditable False s) n) = Some True"
proof -
  let ?s0 = "s\<lparr>win_unlocked := JBool False,
        doc := upd ''applyBtn'' (\<lambda>el. el\<lparr>disabled := \<not> False\<rparr>)
                 (\<lambda>n. map_option
                    (\<lambda>el. if ''need-unlock'' \<in> set (classes el) then el\<lparr>disabled := \<not> False\<rparr> else el)
                    (doc s n))\<rparr>"
  have "map_option disabled (doc ?s0 n) = Some True"
    using assms by (cases n) (auto simp: upd_def split: option.splits)
  then have "map_option disabled (doc (setNetworkFieldState ?s0) n) = Some True"
    by (intro setNetworkFieldState_locked) simp_all
  then have "map_option disabled (doc (setTimeFieldState (setNetworkFieldState ?s0)) n) = Some True"
    by (intro setTimeFieldState_locked) (simp_all add: setNetworkFieldState_win)
  then show ?thesis by (simp add: setEditable_def Let_def)
qed

lemma upd_text_keeps_disabled:
  "map_option disabled (upd i (\<lambda>e. e\<lparr>textContent := t\<rparr>) D n) = map_option disabled (D n)"
  by (cases n) (auto simp: upd_def split: option.splits)

lemma lock_completes_when_answered:
  assumes "qs (doc s) ''unlockBtn'' \<noteq> None" and "unlocked s"
    and "doc s n = Some el" and "''need-unlock'' \<in> set (classes el)"
  shows "\<not> unlocked (state_of (unlockBtn_click (Response st b) s))"
    and "map_option disabled (doc (state_of (unlockBtn_click (Response st b) s)) n) = Some True"
proof -
  have r: "unlockBtn_click (Response st b) s = Returned (initLockUI_refresh (s\<lparr>unlocked := False\<rparr>))"
    using assms(1,2) by (rule lock_request_answered)
  show "\<not> unlocked (state_of (unlockBtn_click (Response st b) s))"
    by (simp add: r unlocked_initLockUI_refresh)
  have "map_option disabled (doc (setEditable False (s\<lparr>unlocked := False\<rparr>)) n) = Some True"
    by (rule setEditable_False_disables[where el = el]) (simp_all add: assms)
  then show "map_option disabled (doc (state_of (unlockBtn_click (Response st b) s)) n) = Some True"
    by (simp add: r initLockUI_refresh_def Let_def upd_text_keeps_disabled)
qed

subsection \<open>Rounding to binary64\<close>

lemma pow2_powi: "pow2 k = 2 powi k"
  by (simp add: pow2_def power_int_def inverse_eq_divide power_one_over)

lemma pow2_pos: "0 < pow2 k"
  by (simp add: pow2_powi)

lemma pow2_add: "pow2 (a + b) = pow2 a * pow2 b"
  by (simp add: pow2_powi power_int_add)

lemma pow2_nat: "pow2 (int n) = 2 ^ n"
  by (simp add: pow2_def)

lemma pow2_neg_nat: "pow2 (- int n) = 1 / 2 ^ n"
  by (simp add: pow2_def)

lemma pow2_mono: "a \<le> b \<Longrightarrow> pow2 a \<le> pow2 b"
  by (simp add: pow2_powi power_int_increasing)

lemma pow2_less: "a < b \<Longrightarrow> pow2 a < pow2 b"
  by (simp add: pow2_powi power_int_strict_increasing)

lemma pow2_less_D: "pow2 a < pow2 b \<Longrightarrow> a < b"
  using pow2_mono[of b a] by (cases "a < b") auto

lemma pow2_le_D: "pow2 a \<le> pow2 b \<Longrightarrow> a \<le> b"
  using pow2_less[of b a] by (cases "a \<le> b") auto

lemma rat_of_nat_less_pow: "n < b ^ k \<Longrightarrow> (of_nat n :: rat) < of_nat b ^ k"
proof -
  assume "n < b ^ k"
  then have "(of_nat n :: rat) < of_nat (b ^ k)" by (simp only: of_nat_less_iff)
  then show ?thesis by (simp only: of_nat_power)
qed

lemma rat_of_nat_le_pow: "n \<le> b ^ k \<Longrightarrow> (of_nat n :: rat) \<le> of_nat b ^ k"
proof -
  assume "n \<le> b ^ k"
  then have "(of_nat n :: rat) \<le> of_nat (b ^ k)" by (simp only: of_nat_le_iff)
  then show ?thesis by (simp only: of_nat_power)
qed

lemma rat_pow_le_of_nat: "b ^ k \<le> n \<Longrightarrow> (of_nat b :: rat) ^ k \<le> of_nat n"
proof -
  assume "b ^ k \<le> n"
  then have "(of_nat (b ^ k) :: rat) \<le> of_nat n" by (simp only: of_nat_le_iff)
  then show ?thesis by (simp only: of_nat_power)
qed

lemma blen_bounds: "0 < n \<Longrightarrow> 2 ^ (blen n - 1) \<le> n \<and> n < 2 ^ blen n"
proof (induction n rule: blen.induct)
  case (1 n)
  show ?case
  proof (cases "n div 2 = 0")
    case True
    with "1.prems" have "n = 1" by (simp add: div_eq_0_iff) 
    then show ?thesis by (simp add: blen.simps)
  next
    case False
    with "1.IH" "1.prems" have ih: "2 ^ (blen (n div 2) - 1) \<le> n div 2" "n div 2 < 2 ^ blen (n div 2)"
      by simp_all
    have b: "blen n = Suc (blen (n div 2))" using "1.prems" by (simp add: blen.simps[of n])
    have p: "0 < blen (n div 2)" using False by (simp add: blen.simps[of "n div 2"])
    then have "(2::nat) ^ blen (n div 2) = 2 * 2 ^ (blen (n div 2) - 1)"
      by (cases "blen (n div 2)") simp_all
    with ih b show ?thesis by simp linarith
  qed
qed

lemma blen_pos: "0 < n \<Longrightarrow> 0 < blen n"
  by (simp add: blen.simps[of n])

lemma ilog2_bounds:
  assumes "0 < q"
  shows "pow2 (ilog2 q) \<le> q" and "q < pow2 (ilog2 q + 1)"
proof -
  have "pow2 (ilog2 q) \<le> q \<and> q < pow2 (ilog2 q + 1)"
  proof (cases "1 \<le> q")
    case True
    define n where "n = nat \<lfloor>q\<rfloor>"
    have f1: "1 \<le> \<lfloor>q\<rfloor>" using True by (simp add: le_floor_iff)
    then have n: "0 < n" "(of_nat n :: rat) = of_int \<lfloor>q\<rfloor>"
      by (simp_all add: n_def)
    have e: "ilog2 q = int (blen n - 1)" "ilog2 q + 1 = int (blen n)"
      using True blen_pos[OF n(1)] by (simp_all add: ilog2_def n_def)
    from blen_bounds[OF n(1)] have b: "2 ^ (blen n - 1) \<le> n" "Suc n \<le> 2 ^ blen n"
      by simp_all
    have "(2::rat) ^ (blen n - 1) \<le> of_nat n"
      using rat_pow_le_of_nat[OF b(1)] by simp
    also have "\<dots> \<le> q" by (simp add: n(2))
    finally have lo: "pow2 (ilog2 q) \<le> q" by (simp add: e(1) pow2_nat)
    have "q < of_nat (Suc n)" using n(2) by (simp add: floor_less_iff[symmetric]) linarith
    also have "\<dots> \<le> 2 ^ blen n"
      using rat_of_nat_le_pow[OF b(2)] by simp
    finally have hi: "q < pow2 (ilog2 q + 1)" by (simp add: e(2) pow2_nat)
    from lo hi show ?thesis ..
  next
    case False
    then have q1: "q < 1" by simp
    define c where "c = \<lceil>1 / q\<rceil>"
    define m where "m = nat (c - 1)"
    have iq: "1 < 1 / q" using assms q1 by (simp add: field_simps)
    then have "1 < c" unfolding c_def by (simp add: less_ceiling_iff)
    then have m: "0 < m" "int m = c - 1" by (simp_all add: m_def)
    have cq: "1 / q \<le> of_int c" "of_int c - 1 < 1 / q"
      unfolding c_def by (simp_all add: ceiling_correct)
    define k where "k = blen m"
    have kpos: "0 < k" using blen_pos[OF m(1)] by (simp add: k_def)
    have e: "ilog2 q = - int k" using False by (simp add: ilog2_def m_def c_def k_def)
    have e1: "ilog2 q + 1 = - int (k - 1)" using kpos e by simp
    from blen_bounds[OF m(1)] have b: "2 ^ (k - 1) \<le> m" "Suc m \<le> 2 ^ k"
      by (simp_all add: k_def)
    have mc: "(of_nat m :: rat) = of_int c - 1"
    proof -
      have "(of_int (int m) :: rat) = of_int (c - 1)" by (simp only: m(2))
      then show ?thesis by simp
    qed
    have "1 / q \<le> of_nat (Suc m)" using cq(1) mc by simp
    also have "\<dots> \<le> 2 ^ k"
      using rat_of_nat_le_pow[OF b(2)] by simp
    finally have "1 / q \<le> 2 ^ k" .
    then have "1 \<le> 2 ^ k * q" using assms by (simp add: field_simps)
    then have lo: "pow2 (ilog2 q) \<le> q" unfolding e pow2_neg_nat by (simp add: field_simps)
    have "(2::rat) ^ (k - 1) \<le> of_nat m"
      using rat_pow_le_of_nat[OF b(1)] by simp
    also have "\<dots> < 1 / q" using cq(2) mc by simp
    finally have "2 ^ (k - 1) * q < 1" using assms by (simp add: field_simps)
    then have hi: "q < pow2 (ilog2 q + 1)" unfolding e1 pow2_neg_nat by (simp add: field_simps)
    from lo hi show ?thesis ..
  qed
  then show "pow2 (ilog2 q) \<le> q" and "q < pow2 (ilog2 q + 1)" by simp_all
qed

lemma ilog2_ge: "0 < q \<Longrightarrow> pow2 a \<le> q \<Longrightarrow> a \<le> ilog2 q"
  using ilog2_bounds(2)[of q] pow2_less_D[of a "ilog2 q + 1"] by force

lemma ilog2_less: "0 < q \<Longrightarrow> q < pow2 a \<Longrightarrow> ilog2 q < a"
  using ilog2_bounds(1)[of q] pow2_less_D[of "ilog2 q" a] by force

lemma round_even_err: "\<bar>of_int (round_even y) - y\<bar> \<le> 1 / 2"
proof -
  define f where "f = \<lfloor>y\<rfloor>"
  define r where "r = y - of_int f"
  have r: "0 \<le> r" "r < 1" unfolding r_def f_def by linarith+
  have y: "y = of_int f + r" by (simp add: r_def)
  have "round_even y = (if r < 1 / 2 then f else if 1 / 2 < r then f + 1
                        else if even f then f else f + 1)"
    by (simp add: round_even_def Let_def f_def r_def)
  then consider "round_even y = f" "r \<le> 1 / 2" | "round_even y = f + 1" "1 / 2 \<le> r"
    by (auto split: if_splits)
  then show ?thesis
  proof cases
    case 1
    then show ?thesis using r y by simp
  next
    case 2
    then show ?thesis using r y by simp
  qed
qed

lemma round_even_int: "round_even (of_int z) = z"
  by (simp add: round_even_def Let_def)

lemma round_even_ge: "of_int z \<le> y \<Longrightarrow> z \<le> round_even y"
proof -
  assume "of_int z \<le> y"
  then have "z \<le> \<lfloor>y\<rfloor>" by (simp add: le_floor_iff)
  then show ?thesis by (auto simp: round_even_def Let_def)
qed


lemma pow2_half: "pow2 (e - 52) = 2 * pow2 (e - 53)"
proof -
  have "pow2 (e - 52) = pow2 (1 + (e - 53))" by simp
  also have "\<dots> = pow2 1 * pow2 (e - 53)" by (rule pow2_add)
  finally show ?thesis by (simp add: pow2_def)
qed

lemma fl_pos_unfold:
  assumes "- 1022 \<le> ilog2 q"
  shows "fl_pos q = (if pow2 1024 \<le> of_int (round_even (q / pow2 (ilog2 q - 52))) * pow2 (ilog2 q - 52)
                     then PInf
                     else Fin (of_int (round_even (q / pow2 (ilog2 q - 52))) * pow2 (ilog2 q - 52)))"
  using assms by (simp add: fl_pos_def Let_def max_def)

lemma fl_pos_normal:
  assumes "0 < q" and "- 1022 \<le> ilog2 q" and "q < pow2 1023"
  shows "\<exists>v. fl_pos q = Fin v \<and> \<bar>v - q\<bar> \<le> pow2 (ilog2 q - 53)"
proof -
  define e where "e = ilog2 q"
  define u where "u = pow2 (e - 52)"
  define z where "z = round_even (q / u)"
  define v where "v = of_int z * u"
  have u: "0 < u" "u = 2 * pow2 (e - 53)" by (simp_all add: u_def pow2_pos pow2_half)
  have "\<bar>of_int z - q / u\<bar> \<le> 1 / 2" unfolding z_def by (rule round_even_err)
  then have "\<bar>of_int z - q / u\<bar> * u \<le> 1 / 2 * u" using u(1) by (simp add: mult_right_mono)
  moreover have "\<bar>of_int z - q / u\<bar> * u = \<bar>v - q\<bar>"
  proof -
    have "(of_int z - q / u) * u = v - q" using u(1) by (simp add: v_def field_simps)
    then have "\<bar>v - q\<bar> = \<bar>(of_int z - q / u) * u\<bar>" by simp
    also have "\<dots> = \<bar>of_int z - q / u\<bar> * u" using u(1) by (simp add: abs_mult)
    finally show ?thesis by simp
  qed
  ultimately have err: "\<bar>v - q\<bar> \<le> pow2 (e - 53)" using u(2) by simp
  have "e < 1023" unfolding e_def using assms(1,3) by (rule ilog2_less)
  then have "pow2 (e - 53) \<le> pow2 1023" by (intro pow2_mono) simp
  with err assms(3) have "v < pow2 1023 + pow2 1023" by (simp add: abs_le_iff)
  also have "\<dots> = pow2 1024" by (simp add: pow2_def)
  finally have "\<not> pow2 1024 \<le> v" by simp
  then have "fl_pos q = Fin v"
    using fl_pos_unfold[OF assms(2)] by (simp add: v_def z_def u_def e_def)
  with err show ?thesis by (auto simp: e_def)
qed

lemma fl_pos_exact:
  assumes "- 1022 \<le> ilog2 q" and "q < pow2 1024"
    and "q / pow2 (ilog2 q - 52) = of_int z"
  shows "fl_pos q = Fin q"
proof -
  have "of_int z * pow2 (ilog2 q - 52) = q"
    using assms(3) pow2_pos[of "ilog2 q - 52"] by (simp add: field_simps)
  then show ?thesis
    using assms(1,2) by (simp add: fl_pos_unfold assms(3) round_even_int)
qed

lemma pow2_inverse: "1 / pow2 k = pow2 (- k)"
  by (simp add: pow2_powi power_int_minus field_simps)

lemma fl_dyadic:
  assumes "0 < a" and "a < 2 ^ 53" and "t \<le> 1022"
  shows "fl (of_int a / 2 ^ t) = Fin (of_int a / 2 ^ t)"
proof -
  define x :: rat where "x = of_int a / 2 ^ t"
  have xp: "0 < x" using assms(1) by (simp add: x_def)
  define e where "e = ilog2 x"
  have x2: "x = of_int a * pow2 (- int t)" by (simp add: x_def pow2_neg_nat)
  have "(of_int a :: rat) < of_int (2 ^ 53)" using assms(2) by (simp only: of_int_less_iff)
  then have "(of_int a :: rat) < 2 ^ 53" by simp
  then have "x < pow2 53 * pow2 (- int t)"
    unfolding x2 using pow2_pos[of "- int t"] by (simp add: pow2_def)
  then have xlt: "x < pow2 (53 - int t)" by (simp add: pow2_add[symmetric])
  then have e_hi: "e < 53 - int t" unfolding e_def using xp by (intro ilog2_less)
  have "(1 :: rat) \<le> of_int a" using assms(1) by simp
  then have "pow2 (- int t) \<le> x" unfolding x2 using pow2_pos[of "- int t"] by simp
  then have e_lo: "- int t \<le> e" unfolding e_def using xp by (intro ilog2_ge)
  define d where "d = nat (52 - e - int t)"
  have d: "int d = 52 - e - int t" using e_hi by (simp add: d_def)
  have inv: "1 / pow2 (e - 52) = pow2 (52 - e)"
    using pow2_inverse[of "e - 52"] by simp
  have "x / pow2 (e - 52) = x * (1 / pow2 (e - 52))" by simp
  also have "\<dots> = x * pow2 (52 - e)" by (simp only: inv)
  also have "\<dots> = of_int a * (pow2 (- int t) * pow2 (52 - e))" by (simp add: x2)
  also have "pow2 (- int t) * pow2 (52 - e) = pow2 (int d)"
    by (simp add: pow2_add[symmetric] d)
  also have "of_int a * pow2 (int d) = of_int (a * 2 ^ d)" by (simp add: pow2_nat)
  finally have ex: "x / pow2 (ilog2 x - 52) = of_int (a * 2 ^ d)" by (simp add: e_def)
  have n: "- 1022 \<le> ilog2 x" using e_lo assms(3) by (simp add: e_def)
  have "pow2 (53 - int t) \<le> pow2 1024" by (intro pow2_mono) simp
  with xlt have "x < pow2 1024" by simp
  with n have "fl_pos x = Fin x" using ex by (rule fl_pos_exact)
  with xp show ?thesis by (simp add: fl_def x_def)
qed

lemma fl_nat:
  assumes "n < 2 ^ 53"
  shows "fl (of_nat n) = Fin (of_nat n)"
proof (cases "n = 0")
  case True
  then show ?thesis by (simp add: fl_def)
next
  case False
  have "int n < 2 ^ 53" using assms by simp
  with False fl_dyadic[of "int n" 0] show ?thesis by simp
qed

lemma fl_err:
  assumes "pow2 (- 1022) \<le> x" and "x < pow2 1023"
  shows "\<exists>v. fl x = Fin v \<and> \<bar>v - x\<bar> \<le> x / 2 ^ 53"
proof -
  have xp: "0 < x" using assms(1) pow2_pos[of "- 1022"] by simp
  have n: "- 1022 \<le> ilog2 x" using xp assms(1) by (rule ilog2_ge)
  from fl_pos_normal[OF xp n assms(2)] obtain v where
    v: "fl_pos x = Fin v" "\<bar>v - x\<bar> \<le> pow2 (ilog2 x - 53)" by blast
  have "pow2 (ilog2 x - 53) = pow2 (ilog2 x) * pow2 (- 53)"
    using pow2_add[of "ilog2 x" "- 53"] by simp
  also have "\<dots> \<le> x * pow2 (- 53)"
    using ilog2_bounds(1)[OF xp] pow2_pos[of "- 53"] by (simp add: mult_right_mono)
  also have "\<dots> = x / 2 ^ 53" by (simp add: pow2_def)
  finally have "pow2 (ilog2 x - 53) \<le> x / 2 ^ 53" .
  with v xp show ?thesis by (auto simp: fl_def)
qed

subsection \<open>Whole numbers in double arithmetic\<close>

lemma floor_div:
  assumes "n < 2 ^ 53" and "0 < c" and "c \<le> 2 ^ 20"
  shows "Math_floor (js_div (Fin (of_nat n)) (Fin (of_nat c))) = Fin (of_nat (n div c))"
proof -
  define k where "k = n div c"
  define r where "r = n mod c"
  define N :: rat where "N = of_nat n"
  define C :: rat where "C = of_nat c"
  define K :: rat where "K = of_nat k"
  define R :: rat where "R = of_nat r"
  have Cp: "0 < C" using assms(2) by (simp add: C_def)
  have "n = k * c + r" by (simp add: k_def r_def)
  then have "N = K * C + R"
    unfolding N_def K_def C_def R_def by (simp only: of_nat_add[symmetric] of_nat_mult[symmetric])
  then have x: "N / C = K + R / C" using Cp by (simp add: field_simps)
  have d: "js_div (Fin N) (Fin C) = fl (N / C)" using Cp by simp
  show ?thesis
  proof (cases "r = 0")
    case True
    then have "N / C = of_nat k" using x by (simp add: R_def K_def)
    moreover have "k < 2 ^ 53"
      unfolding k_def using div_le_dividend[of n c] assms(1) by (rule le_less_trans)
    ultimately have "fl (N / C) = Fin (of_nat k)" by (simp add: fl_nat)
    then show ?thesis using d by (simp add: N_def C_def k_def)
  next
    case False
    then have R1: "1 \<le> R" by (simp add: R_def)
    have "r < c" using assms(2) by (simp add: r_def)
    then have "Suc r \<le> c" by simp
    then have "of_nat (Suc r) \<le> (of_nat c :: rat)" by (simp only: of_nat_le_iff)
    then have R2: "R + 1 \<le> C" by (simp add: R_def C_def)
    have Kp: "0 \<le> K" by (simp add: K_def)
    have lo: "K + 1 / C \<le> N / C" using R1 Cp x by (simp add: field_simps)
    have hi: "N / C + 1 / C \<le> K + 1" using R2 Cp x by (simp add: field_simps)
    have Clt: "C \<le> 2 ^ 20" using rat_of_nat_le_pow[OF assms(3)] by (simp add: C_def)
    have Nlt: "N < 2 ^ 53" using rat_of_nat_less_pow[OF assms(1)] by (simp add: N_def)
    have "1 / 2 ^ 20 \<le> 1 / C" using Cp Clt by (simp add: frac_le)
    also have "\<dots> \<le> N / C" using lo Kp by simp
    finally have "pow2 (- 20) \<le> N / C" by (simp add: pow2_def)
    moreover have "pow2 (- 1022) \<le> pow2 (- 20)" by (intro pow2_mono) simp
    ultimately have n1: "pow2 (- 1022) \<le> N / C" by simp
    have "1 \<le> C" using R1 R2 by simp
    moreover have "0 \<le> N / C" using Cp by (simp add: N_def)
    ultimately have "N / C * 1 \<le> N / C * C" by (intro mult_left_mono)
    then have "N / C \<le> N" using Cp by simp
    also have "N < pow2 53" using Nlt by (simp add: pow2_def)
    also have "pow2 53 \<le> pow2 1023" by (intro pow2_mono) simp
    finally have n2: "N / C < pow2 1023" .
    from fl_err[OF n1 n2] obtain v where
      v: "fl (N / C) = Fin v" "\<bar>v - N / C\<bar> \<le> N / C / 2 ^ 53" by blast
    have "N / 2 ^ 53 < 1" using Nlt by simp
    then have "(N / 2 ^ 53) / C < 1 / C" using Cp by (rule divide_strict_right_mono)
    moreover have "N / C / 2 ^ 53 = (N / 2 ^ 53) / C" by simp
    ultimately have "N / C / 2 ^ 53 < 1 / C" by (simp only:)
    note this
    then have "\<bar>v - N / C\<bar> < 1 / C" using v(2) by linarith
    then have "K < v" "v < K + 1" using lo hi by (simp_all add: abs_less_iff)
    then have "\<lfloor>v\<rfloor> = int k"
      by (intro floor_unique) (simp_all add: K_def)
    then show ?thesis using d v(1) by (simp add: N_def C_def k_def)
  qed
qed

text \<open>One step of the decomposition: the quotient, and what is left after taking it away.\<close>

lemma divmod_step:
  assumes "n < 2 ^ 53" and "0 < c" and "c \<le> 2 ^ 20"
  shows "Math_floor (js_div (Fin (of_nat n)) (Fin (of_nat c))) = Fin (of_nat (n div c))"
    and "js_sub (Fin (of_nat n)) (js_mul (Fin (of_nat (n div c))) (Fin (of_nat c)))
         = Fin (of_nat (n mod c))"
proof -
  show "Math_floor (js_div (Fin (of_nat n)) (Fin (of_nat c))) = Fin (of_nat (n div c))"
    using assms by (rule floor_div)
  have le: "n div c * c \<le> n" by simp
  then have p: "n div c * c < 2 ^ 53" using assms(1) by (rule le_less_trans)
  have "js_mul (Fin (of_nat (n div c))) (Fin (of_nat c)) = fl (of_nat (n div c * c))"
    by (simp only: js_mul.simps of_nat_mult)
  also have "\<dots> = Fin (of_nat (n div c * c))" using p by (rule fl_nat)
  finally have m: "js_mul (Fin (of_nat (n div c))) (Fin (of_nat c)) = Fin (of_nat (n div c * c))" .
  have "n mod c = n - n div c * c" by (simp add: minus_div_mult_eq_mod)
  then have eq: "(of_nat n :: rat) - of_nat (n div c * c) = of_nat (n mod c)"
    using le by (simp only: of_nat_diff)
  have lt: "n mod c < 2 ^ 53" using mod_less_eq_dividend[of n c] assms(1) by (rule le_less_trans)
  have "js_sub (Fin (of_nat n)) (js_mul (Fin (of_nat (n div c))) (Fin (of_nat c)))
        = js_sub (Fin (of_nat n)) (Fin (of_nat (n div c * c)))" by (simp only: m)
  also have "\<dots> = fl (of_nat n - of_nat (n div c * c))" by (simp only: js_sub.simps)
  also have "\<dots> = fl (of_nat (n mod c))" by (simp only: eq)
  also have "\<dots> = Fin (of_nat (n mod c))" using lt by (rule fl_nat)
  finally show "js_sub (Fin (of_nat n)) (js_mul (Fin (of_nat (n div c))) (Fin (of_nat c)))
         = Fin (of_nat (n mod c))" .
qed

subsection \<open>Decimal digits\<close>

lemma dec_small: "k < 10 \<Longrightarrow> dec k = [digit k]"
  by (simp add: dec.simps[of k])

lemma dec_step: "10 \<le> k \<Longrightarrow> dec k = dec (k div 10) @ [digit (k mod 10)]"
  by (simp add: dec.simps[of k])

lemma dec_nonempty: "dec k \<noteq> []"
  by (simp add: dec.simps[of k])

lemma length_dec_ge2:
  assumes "10 \<le> k"
  shows "2 \<le> length (dec k)"
proof -
  have "length (dec k) = length (dec (k div 10)) + 1"
    by (simp only: dec_step[OF assms] length_append list.size)
  moreover have "0 < length (dec (k div 10))"
    using dec_nonempty[of "k div 10"] by simp
  ultimately show ?thesis by linarith
qed

lemma padStart_dec: "padStart (dec k) 2 CHR ''0'' = pad2 k"
proof (cases "k < 10")
  case True
  then show ?thesis by (simp add: padStart_def pad2_def dec_small)
next
  case False
  then have "2 \<le> length (dec k)" by (simp add: length_dec_ge2)
  with False show ?thesis by (simp add: padStart_def pad2_def)
qed

lemma num2str_nat: "k < 2 ^ 53 \<Longrightarrow> num2str H (Fin (of_nat k)) = dec k"
proof -
  assume "k < 2 ^ 53"
  from rat_of_nat_less_pow[OF this] have "(of_nat k :: rat) < 2 ^ 53" by simp
  then show ?thesis by simp
qed

subsection \<open>Uptime\<close>

lemma fmtUptime_nat:
  assumes "n < 2 ^ 53"
  shows "fmtUptime H (JNum (Fin (of_nat n))) = spec_formatUptime n"
proof -
  define r1 where "r1 = n mod 86400"
  define r2 where "r2 = r1 mod 3600"
  have b1: "r1 < 2 ^ 53"
    unfolding r1_def using mod_less_eq_dividend[of n 86400] assms by (rule le_less_trans)
  have b2: "r2 < 2 ^ 53"
    unfolding r2_def using mod_less_eq_dividend[of r1 3600] b1 by (rule le_less_trans)
  have D: "Math_floor (js_div (Fin (of_nat n)) (Fin 86400)) = Fin (of_nat (n div 86400))"
    and S1: "js_sub (Fin (of_nat n)) (js_mul (Fin (of_nat (n div 86400))) (Fin 86400))
             = Fin (of_nat r1)"
    using divmod_step[OF assms, of 86400] by (simp_all add: r1_def)
  have Hh: "Math_floor (js_div (Fin (of_nat r1)) (Fin 3600)) = Fin (of_nat (r1 div 3600))"
    and S2: "js_sub (Fin (of_nat r1)) (js_mul (Fin (of_nat (r1 div 3600))) (Fin 3600))
             = Fin (of_nat r2)"
    using divmod_step[OF b1, of 3600] by (simp_all add: r2_def)
  have M: "Math_floor (js_div (Fin (of_nat r2)) (Fin 60)) = Fin (of_nat (r2 div 60))"
    and S3: "js_sub (Fin (of_nat r2)) (js_mul (Fin (of_nat (r2 div 60))) (Fin 60))
             = Fin (of_nat (r2 mod 60))"
    using divmod_step[OF b2, of 60] by simp_all
  have n21: "n < 2 ^ 53" using assms by simp
  have s1: "num2str H (Fin (of_nat (n div 86400))) = dec (n div 86400)"
    using le_less_trans[OF div_le_dividend n21] by (rule num2str_nat)
  have "r1 < 2 ^ 53"
    unfolding r1_def using mod_less_eq_dividend n21 by (rule le_less_trans)
  then have s2: "num2str H (Fin (of_nat (r1 div 3600))) = dec (r1 div 3600)"
    using le_less_trans[OF div_le_dividend] by (intro num2str_nat) blast
  have r2': "r2 < 2 ^ 53"
    unfolding r2_def using mod_less_eq_dividend \<open>r1 < 2 ^ 53\<close> by (rule le_less_trans)
  then have s3: "num2str H (Fin (of_nat (r2 div 60))) = dec (r2 div 60)"
    using le_less_trans[OF div_le_dividend] by (intro num2str_nat) blast
  have s4: "num2str H (Fin (of_nat (r2 mod 60))) = dec (r2 mod 60)"
    using le_less_trans[OF mod_less_eq_dividend r2'] by (rule num2str_nat)
  have m1: "r2 = n mod 3600"
    unfolding r2_def r1_def by (rule mod_mod_cancel) simp
  have m2: "r2 mod 60 = n mod 60"
    unfolding m1 by (rule mod_mod_cancel) simp
  have fl4: "Math_floor (Fin (of_nat (r2 mod 60))) = Fin (of_nat (r2 mod 60))"
    by simp
  have "fmtUptime H (JNum (Fin (of_nat n)))
        = (if 0 < n div 86400 then dec (n div 86400) @ ''d '' else [])
          @ pad2 (r1 div 3600) @ '':'' @ pad2 (r2 div 60) @ '':'' @ pad2 (r2 mod 60)"
    unfolding fmtUptime_def
    by (simp add: Let_def D S1 Hh S2 M S3 fl4 s1 s2 s3 s4 padStart_dec
          del: js_div.simps js_mul.simps js_sub.simps Math_floor.simps num2str.simps)
  also have "\<dots> = spec_formatUptime n"
    by (simp add: spec_formatUptime_def Let_def m2 m1[symmetric] r1_def)
  finally show ?thesis .
qed

lemma spec_formatUptime_examples:
  "spec_formatUptime 90061 = ''1d 01:01:01''"
  "spec_formatUptime 61 = ''00:01:01''"
  by (simp_all add: spec_formatUptime_def pad2_def Let_def dec.simps digit_def)

lemma fmtUptime_examples:
  "fmtUptime H (JNum (Fin 90061)) = ''1d 01:01:01''"
  "fmtUptime H (JNum (Fin 61)) = ''00:01:01''"
  using fmtUptime_nat[of 90061 H] fmtUptime_nat[of 61 H]
  by (simp_all add: spec_formatUptime_examples)

lemma fmtUptime_placeholder:
  "\<not> is_number v \<Longrightarrow> fmtUptime H v = emdash"
  "\<not> js_le (Fin 0) x \<Longrightarrow> fmtUptime H (JNum x) = emdash"
  by (cases v) (simp_all add: fmtUptime_def)

subsection \<open>Frequency\<close>

lemma fl_pos_value:
  assumes "0 < q" and "- 1022 \<le> ilog2 q" and "q < pow2 1023"
  shows "fl_pos q = Fin (of_int (round_even (q / pow2 (ilog2 q - 52))) * pow2 (ilog2 q - 52))"
proof -
  from fl_pos_normal[OF assms] obtain v where v: "fl_pos q = Fin v" by blast
  then show ?thesis
    using fl_pos_unfold[OF assms(2)] by (simp split: if_splits)
qed

text \<open>Rounding does not go below a whole number that the exact value reaches.\<close>

lemma fl_ge_nat:
  assumes "of_nat k \<le> x" and "0 < x" and "pow2 (- 1022) \<le> x" and "x < 2 ^ 53"
  shows "\<exists>v. fl x = Fin v \<and> of_nat k \<le> v \<and> \<bar>v - x\<bar> \<le> x / 2 ^ 53"
proof -
  define e where "e = ilog2 x"
  define u where "u = pow2 (e - 52)"
  have n: "- 1022 \<le> ilog2 x" using assms(2,3) by (rule ilog2_ge)
  have "x < pow2 53" using assms(4) by (simp add: pow2_def)
  then have e53: "e < 53" unfolding e_def using assms(2) by (intro ilog2_less)
  have "pow2 53 \<le> pow2 1023" by (intro pow2_mono) simp
  with \<open>x < pow2 53\<close> have x1023: "x < pow2 1023" by simp
  have val: "fl x = Fin (of_int (round_even (x / u)) * u)"
    using fl_pos_value[OF assms(2) n x1023] assms(2) by (simp add: fl_def u_def e_def)
  from fl_err[OF assms(3) x1023] val
  have err: "\<bar>of_int (round_even (x / u)) * u - x\<bar> \<le> x / 2 ^ 53" by auto
  define d where "d = nat (52 - e)"
  have d: "int d = 52 - e" using e53 by (simp add: d_def)
  have up: "0 < u" by (simp add: u_def pow2_pos)
  have "1 / u = pow2 (int d)" unfolding u_def d using pow2_inverse[of "e - 52"] by simp
  then have iu: "1 / u = 2 ^ d" by (simp add: pow2_nat)
  have "of_nat k / u = of_nat k * (1 / u)" by simp
  also have "\<dots> = of_int (int k * 2 ^ d)" by (simp add: iu)
  finally have ku: "of_nat k / u = of_int (int k * 2 ^ d)" .
  have "of_nat k / u \<le> x / u" using assms(1) up by (simp add: divide_right_mono)
  then have "int k * 2 ^ d \<le> round_even (x / u)"
    unfolding ku by (rule round_even_ge)
  then have "(of_int (int k * 2 ^ d) :: rat) \<le> of_int (round_even (x / u))"
    by (simp only: of_int_le_iff)
  then have le: "of_int (int k * 2 ^ d) * u \<le> of_int (round_even (x / u)) * u"
    using up by (intro mult_right_mono) simp_all
  have "2 ^ d * u = 1" using iu up by (simp add: field_simps)
  then have "of_nat k * (2 ^ d * u) = of_nat k" by simp
  then have eq: "of_int (int k * 2 ^ d) * u = of_nat k" by (simp add: mult.assoc)
  from le have "of_nat k \<le> of_int (round_even (x / u)) * u" unfolding eq .
  with val err show ?thesis by blast
qed


lemma round_mhz:
  assumes "0 < k" and "k < 10 ^ 6"
  shows "\<exists>v. fl (of_nat k / 1000) = Fin v \<and> v < 1000 \<and> \<lfloor>v + 1 / 2\<rfloor> = int ((k + 500) div 1000)"
proof -
  define x :: rat where "x = of_nat k / 1000"
  define j where "j = (k + 500) div 1000"
  define r where "r = (k + 500) mod 1000"
  have K: "(of_nat k :: rat) < 10 ^ 6" "(1 :: rat) \<le> of_nat k"
    using rat_of_nat_less_pow[OF assms(2)] assms(1) by simp_all
  have xp: "0 < x" using assms(1) by (simp add: x_def)
  have xhi: "x + 1 / 1000 \<le> 1000"
  proof -
    have "Suc k \<le> 10 ^ 6" using assms(2) by simp
    from rat_of_nat_le_pow[OF this] show ?thesis by (simp add: x_def)
  qed
  have "k + 500 = j * 1000 + r" by (simp add: j_def r_def)
  then have "(of_nat (k + 500) :: rat) = of_nat (j * 1000 + r)" by (simp only:)
  then have xj: "x + 1 / 2 = of_nat j + of_nat r / 1000" by (simp add: x_def field_simps)
  show ?thesis
  proof (cases "r = 0")
    case True
    with \<open>k + 500 = j * 1000 + r\<close> assms(1) have j1: "1 \<le> j" by (cases j) simp_all
    have "j \<le> 1000" using assms(2) by (simp add: j_def)
    have x2: "x = of_int (2 * int j - 1) / 2 ^ 1" using xj True by (simp add: field_simps)
    have "fl x = Fin x"
      unfolding x2 using j1 \<open>j \<le> 1000\<close> by (intro fl_dyadic) simp_all
    moreover have "\<lfloor>x + 1 / 2\<rfloor> = int j" using xj True by simp
    moreover have "x < 1000" using xhi by simp
    ultimately have "fl x = Fin x \<and> x < 1000 \<and> \<lfloor>x + 1 / 2\<rfloor> = int j" by simp
    then show ?thesis unfolding x_def j_def by blast
  next
    case False
    then have r1: "(1 :: rat) \<le> of_nat r" by simp
    have "r < 1000" by (simp add: r_def)
    then have "Suc r \<le> 1000" by simp
    then have "(of_nat (Suc r) :: rat) \<le> of_nat 1000" by (simp only: of_nat_le_iff)
    then have r2: "(of_nat r :: rat) \<le> 999" by simp
    have lo: "of_nat j + 1 / 1000 \<le> x + 1 / 2" using xj r1 by simp
    have hi: "x + 1 / 2 + 1 / 1000 \<le> of_nat j + 1" using xj r2 by simp
    have "pow2 (- 1022) \<le> pow2 (- 10)" by (intro pow2_mono) simp
    also have "\<dots> \<le> x" using K(2) by (simp add: x_def pow2_def)
    finally have n1: "pow2 (- 1022) \<le> x" .
    have "x < pow2 10" using xhi by (simp add: pow2_def)
    also have "\<dots> \<le> pow2 1023" by (intro pow2_mono) simp
    finally have n2: "x < pow2 1023" .
    from fl_err[OF n1 n2] obtain v where v: "fl x = Fin v" "\<bar>v - x\<bar> \<le> x / 2 ^ 53" by blast
    have "x / 2 ^ 53 < 1 / 1000" using xhi by simp
    with v(2) have e: "\<bar>v - x\<bar> < 1 / 1000" by linarith
    then have e1: "v - x < 1 / 1000" and e2: "x - v < 1 / 1000" by linarith+
    have a: "of_nat j \<le> v + 1 / 2" using lo e2 by linarith
    have b: "v + 1 / 2 < of_nat j + 1" using hi e1 by linarith
    have "\<lfloor>v + 1 / 2\<rfloor> = int j" by (rule floor_unique) (simp_all add: a b)
    moreover have "v < 1000" using e1 xhi by linarith
    ultimately have "fl x = Fin v \<and> v < 1000 \<and> \<lfloor>v + 1 / 2\<rfloor> = int j" using v(1) by simp
    then show ?thesis unfolding x_def j_def by blast
  qed
qed

lemma fmtFreq_MHz:
  assumes "0 < k" and "k < 10 ^ 6"
  shows "fmtFreq H (JNum (Fin (of_nat k))) = dec ((k + 500) div 1000) @ '' MHz''"
proof -
  from round_mhz[OF assms] obtain v where
    v: "fl (of_nat k / 1000) = Fin v" "v < 1000" "\<lfloor>v + 1 / 2\<rfloor> = int ((k + 500) div 1000)"
    by blast
  have d: "js_div (Fin (of_nat k)) (Fin 1000) = Fin v" using v(1) by simp
  have "(k + 500) div 1000 \<le> k + 500" by (rule div_le_dividend)
  with assms(2) have "(k + 500) div 1000 < 2 ^ 53" by simp
  then have s: "num2str H (Fin (of_nat ((k + 500) div 1000))) = dec ((k + 500) div 1000)"
    by (rule num2str_nat)
  have "Math_round (Fin v) = Fin (of_nat ((k + 500) div 1000))" using v(3) by simp
  then show ?thesis
    using assms(1) v(2) s unfolding fmtFreq_def
    by (simp add: d Let_def del: js_div.simps num2str.simps Math_round.simps)
qed

lemma digit_0: "digit 0 = CHR ''0''"
  by (simp add: digit_def)

lemma dec_0: "dec 0 = ''0''"
  by (simp add: dec_small digit_0)

lemma dec_two:
  assumes "100 \<le> n"
  shows "dec n = dec (n div 100) @ [digit (n div 10 mod 10), digit (n mod 10)]"
proof -
  have a: "10 \<le> n" "10 \<le> n div 10" using assms by simp_all
  have "n div 10 div 10 = n div 100" by (simp add: div_mult2_eq[symmetric])
  then show ?thesis
    by (simp add: dec_step[OF a(1)] dec_step[OF a(2)])
qed

lemma two_decimals_layout:
  "(let m = dec n;
        m' = (if length m \<le> 2 then replicate (2 + 1 - length m) CHR ''0'' @ m else m);
        k = length m'
    in take (k - 2) m' @ ''.'' @ drop (k - 2) m') = two_decimals n"
proof -
  consider "n < 10" | "10 \<le> n" "n < 100" | "100 \<le> n" by linarith
  then show ?thesis
  proof cases
    case 1
    then show ?thesis
      by (simp add: dec_small two_decimals_def dec_0 digit_0 Let_def numeral_2_eq_2)
  next
    case 2
    then have "n div 10 < 10" by simp
    then have "dec n = [digit (n div 10), digit (n mod 10)]"
      using 2(1) by (simp add: dec_step dec_small)
    moreover have "n div 100 = 0" "n div 10 mod 10 = n div 10" using 2 by simp_all
    ultimately show ?thesis by (simp add: two_decimals_def dec_0 Let_def)
  next
    case 3
    have "2 < length (dec n)" by (simp add: dec_two[OF 3] dec_nonempty)
    then show ?thesis
      by (simp add: Let_def two_decimals_def) (simp add: dec_two[OF 3])
  qed
qed

lemma toFixed2:
  assumes "0 \<le> g" and "g < 10 ^ 21"
  shows "toFixed H (Fin g) 2 = two_decimals (nat \<lfloor>g * 100 + 1 / 2\<rfloor>)"
proof -
  have "\<not> 10 ^ 21 \<le> \<bar>g\<bar>" "\<not> g < 0" "\<bar>g\<bar> = g" using assms by simp_all
  then have "toFixed H (Fin g) 2 =
    (let m = dec (nat \<lfloor>g * 100 + 1 / 2\<rfloor>);
         m' = (if length m \<le> 2 then replicate (2 + 1 - length m) CHR ''0'' @ m else m);
         k = length m'
     in take (k - 2) m' @ ''.'' @ drop (k - 2) m')"
    by (simp add: Let_def)
  then show ?thesis by (simp only: two_decimals_layout)
qed


lemma fmtFreq_1500000: "fmtFreq H (JNum (Fin 1500000)) = ''1.50 GHz''"
proof -
  have a: "fl 1500 = Fin 1500" using fl_nat[of 1500] by simp
  have b: "fl (3 / 2) = Fin (3 / 2)" using fl_dyadic[of 3 1] by simp
  have f: "\<lfloor>(301 / 2 :: rat)\<rfloor> = 150" by (rule floor_unique) simp_all
  have c: "toFixed H (Fin (3 / 2)) 2 = ''1.50''"
    using toFixed2[of "3 / 2" H]
    by (simp add: f two_decimals_def dec_small digit_def del: toFixed.simps)
  show ?thesis
    unfolding fmtFreq_def by (simp add: a b c Let_def del: toFixed.simps)
qed

subsection \<open>Bounds\<close>

lemma digit_plain: "d < 10 \<Longrightarrow> digit d \<noteq> CHR 0xE2"
proof -
  assume "d < 10"
  then have "digit d \<in> set ''0123456789''" unfolding digit_def by (intro nth_mem) simp
  then show ?thesis by auto
qed

lemma dec_plain: "CHR 0xE2 \<notin> set (dec n)"
proof (induction n rule: dec.induct)
  case (1 n)
  show ?case
  proof (cases "n < 10")
    case True
    then show ?thesis using digit_plain[of n] by (simp add: dec_small)
  next
    case False
    then have "CHR 0xE2 \<notin> set (dec (n div 10))" using "1.IH" by simp
    moreover have "digit (n mod 10) \<noteq> CHR 0xE2" by (rule digit_plain) simp
    ultimately show ?thesis using False by (simp add: dec_step)
  qed
qed

lemma num2str_plain: "plain_host H \<Longrightarrow> CHR 0xE2 \<notin> set (num2str H x)"
  by (cases x) (simp_all add: plain_host_def dec_plain)

lemma toFixed_plain:
  assumes "plain_host H"
  shows "CHR 0xE2 \<notin> set (toFixed H x f)"
proof (cases x)
  case (Fin q)
  show ?thesis
  proof (cases "10 ^ 21 \<le> \<bar>q\<bar>")
    case True
    then show ?thesis using num2str_plain[OF assms, of "Fin q"] Fin by simp
  next
    case False
    define m where "m = dec (nat \<lfloor>\<bar>q\<bar> * 10 ^ f + 1 / 2\<rfloor>)"
    define m' where "m' = (if length m \<le> f then replicate (f + 1 - length m) CHR ''0'' @ m else m)"
    have m: "CHR 0xE2 \<notin> set m" by (simp add: m_def dec_plain)
    then have m': "CHR 0xE2 \<notin> set m'" by (auto simp: m'_def)
    have t: "CHR 0xE2 \<notin> set (take k m')" "CHR 0xE2 \<notin> set (drop k m')" for k
      using m' in_set_takeD[of "CHR 0xE2" k m'] in_set_dropD[of "CHR 0xE2" k m'] by blast+
    have "toFixed H (Fin q) f
          = (if q < 0 then ''-'' else []) @
            (if f = 0 then m else take (length m' - f) m' @ ''.'' @ drop (length m' - f) m')"
      using False by (simp add: Let_def m_def m'_def)
    then show ?thesis using m t Fin by simp
  qed
qed (use num2str_plain[OF assms] in simp_all)

lemma fmtFreq_plain:
  assumes "plain_host H"
  shows "fmtFreq H v = placeholder \<or> CHR 0xE2 \<notin> set (fmtFreq H v)"
proof (cases v)
  case (JNum x)
  show ?thesis
  proof (cases "js_le x (Fin 0)")
    case True
    then show ?thesis using JNum by (simp add: fmtFreq_def)
  next
    case False
    have "CHR 0xE2 \<notin> set (toFixed H y 2 @ '' GHz'')" "CHR 0xE2 \<notin> set (num2str H y @ '' MHz'')" for y
      using toFixed_plain[OF assms, of y 2] num2str_plain[OF assms, of y] by simp_all
    then show ?thesis using JNum False by (simp add: fmtFreq_def Let_def)
  qed
qed (simp_all add: fmtFreq_def)

lemma replace_first_plain:
  "CHR 0xE2 \<notin> set s \<Longrightarrow> replace_first (emdash @ '' '') r s = s"
  by (induction s) (auto simp: emdash_def)

lemma strip_placeholder: "replace_first (emdash @ '' '') [] placeholder = ''MHz''"
  by (simp add: placeholder_def emdash_def)

lemma strip_is_spec_bound:
  assumes "plain_host H"
  shows "replace_first (emdash @ '' '') [] (fmtFreq H v) = spec_bound H v"
proof (cases "fmtFreq H v = placeholder")
  case True
  then show ?thesis by (simp add: spec_bound_def strip_placeholder)
next
  case False
  with fmtFreq_plain[OF assms, of v] have "CHR 0xE2 \<notin> set (fmtFreq H v)" by simp
  with False show ?thesis by (simp add: spec_bound_def replace_first_plain)
qed

text \<open>
  Claim C9. \<open>fmtBounds\<close> formats its two arguments independently with \<open>fmtFreq\<close>, turns
  a bound that formatted to the placeholder into \<open>MHz\<close> (the placeholder without its dash)
  and leaves every other formatted bound as it is, and joins the two with \<open>" / "\<close>. (The
  host's \<open>Number::toString\<close> is taken to print no em dash.)
\<close>

theorem fmtBounds_rule:
  "(plain_host H \<longrightarrow> fmtBounds H a b = spec_bound H a @ '' / '' @ spec_bound H b)
   \<and> spec_bound H JNull = ''MHz''"
proof (intro conjI impI)
  assume "plain_host H"
  then show "fmtBounds H a b = spec_bound H a @ '' / '' @ spec_bound H b"
    by (simp add: fmtBounds_def strip_is_spec_bound Let_def)
next
  have "fmtFreq H JNull = placeholder" by (simp add: fmtFreq_def)
  then show "spec_bound H JNull = ''MHz''" by (simp add: spec_bound_def)
qed


lemma fmtFreq_examples:
  "fmtFreq H (JNum (Fin 900)) = ''1 MHz''"
  "fmtFreq H (JNum (Fin 900000)) = ''900 MHz''"
  "fmtFreq H (JNum (Fin 300000)) = ''300 MHz''"
  using fmtFreq_MHz[of 900 H] fmtFreq_MHz[of 900000 H] fmtFreq_MHz[of 300000 H]
  by (simp_all add: dec.simps digit_def)

lemma placeholder_neq:
  "''300 MHz'' \<noteq> placeholder" "''1.50 GHz'' \<noteq> placeholder"
  by (simp_all add: placeholder_def emdash_def)

theorem fmtBounds_rule_witness:
  "plain_host sample_host
   \<and> fmtBounds sample_host (JNum (Fin 300000)) (JNum (Fin 1500000)) = ''300 MHz / 1.50 GHz''
   \<and> fmtBounds sample_host (JNum (Fin 300000)) JNull = ''300 MHz / MHz''"
proof -
  have p: "plain_host sample_host" by (simp add: plain_host_def sample_host_def)
  have b: "spec_bound sample_host (JNum (Fin 300000)) = ''300 MHz''"
    "spec_bound sample_host (JNum (Fin 1500000)) = ''1.50 GHz''"
    by (simp_all add: spec_bound_def fmtFreq_examples fmtFreq_1500000 placeholder_neq)
  show ?thesis
    using fmtBounds_rule[of sample_host "JNum (Fin 300000)" "JNum (Fin 1500000)"]
          fmtBounds_rule[of sample_host "JNum (Fin 300000)" JNull] p b
    by simp
qed

subsection \<open>The two formatters\<close>




subsection \<open>Doubles below \<open>2^53\<close>\<close>

lemma fl_pos_unfold_max:
  "fl_pos q =
     (if pow2 1024 \<le> of_int (round_even (q / pow2 (max (ilog2 q) (- 1022) - 52)))
                       * pow2 (max (ilog2 q) (- 1022) - 52)
      then PInf
      else Fin (of_int (round_even (q / pow2 (max (ilog2 q) (- 1022) - 52)))
                * pow2 (max (ilog2 q) (- 1022) - 52)))"
  by (simp add: fl_pos_def Let_def)

text \<open>A multiple of \<open>2^-t\<close> with a numerator below \<open>2^53\<close> is a double, down to the subnormals.\<close>

lemma fl_fraction:
  assumes "a < 2 ^ 53" and "t \<le> 1074"
  shows "fl (of_nat a / 2 ^ t) = Fin (of_nat a / 2 ^ t)"
proof (cases "a = 0")
  case True
  then show ?thesis by (simp add: fl_def)
next
  case False
  define x :: rat where "x = of_nat a / 2 ^ t"
  have xp: "0 < x" using False by (simp add: x_def)
  define e' where "e' = max (ilog2 x) (- 1022)"
  define u where "u = pow2 (e' - 52)"
  have up: "0 < u" by (simp add: u_def pow2_pos)
  have x2: "x = of_nat a * pow2 (- int t)" by (simp add: x_def pow2_neg_nat)
  have "(of_nat a :: rat) < 2 ^ 53" using rat_of_nat_less_pow[OF assms(1)] by simp
  then have "x < pow2 53 * pow2 (- int t)"
    unfolding x2 using pow2_pos[of "- int t"] by (simp add: pow2_def)
  then have xlt: "x < pow2 (53 - int t)" by (simp add: pow2_add[symmetric])
  then have "ilog2 x < 53 - int t" using xp by (intro ilog2_less)
  then have e't: "e' \<le> 52 - int t" using assms(2) by (simp add: e'_def)
  define d where "d = nat (52 - e' - int t)"
  have d: "int d = 52 - e' - int t" using e't by (simp add: d_def)
  have inv: "1 / pow2 (e' - 52) = pow2 (52 - e')"
    using pow2_inverse[of "e' - 52"] by simp
  have "x / u = x * (1 / pow2 (e' - 52))" by (simp add: u_def)
  also have "\<dots> = x * pow2 (52 - e')" by (simp only: inv)
  also have "\<dots> = of_nat a * (pow2 (- int t) * pow2 (52 - e'))" by (simp add: x2)
  also have "pow2 (- int t) * pow2 (52 - e') = pow2 (int d)"
    by (simp add: pow2_add[symmetric] d)
  also have "of_nat a * pow2 (int d) = of_int (int a * 2 ^ d)" by (simp add: pow2_nat)
  finally have ex: "x / u = of_int (int a * 2 ^ d)" .
  then have bk: "of_int (int a * 2 ^ d) * u = x" using up by (simp add: field_simps)
  have "pow2 (53 - int t) \<le> pow2 1024" by (intro pow2_mono) simp
  with xlt have "\<not> pow2 1024 \<le> x" by simp
  then have "fl_pos x = Fin x"
    using fl_pos_unfold_max[of x]
    by (simp only: e'_def[symmetric] u_def[symmetric] ex round_even_int bk if_False)
  with xp show ?thesis by (simp add: fl_def x_def)
qed

lemma double_fraction:
  assumes "0 < q" and "q < 2 ^ 53" and "fl q = Fin q"
  shows "\<exists>a t. q = of_nat a / 2 ^ t \<and> a < 2 ^ 53 \<and> t \<le> 1074"
proof -
  define e' where "e' = max (ilog2 q) (- 1022)"
  define u where "u = pow2 (e' - 52)"
  define z where "z = round_even (q / u)"
  have up: "0 < u" by (simp add: u_def pow2_pos)
  have "q < pow2 53" using assms(2) by (simp add: pow2_def)
  then have "ilog2 q < 53" using assms(1) by (intro ilog2_less)
  then have e': "e' \<le> 52" "- 1022 \<le> e'" by (simp_all add: e'_def)
  have fq: "fl_pos q = Fin q" using assms(1,3) by (simp add: fl_def)
  have "fl_pos q = (if pow2 1024 \<le> of_int z * u then PInf else Fin (of_int z * u))"
    using fl_pos_unfold_max[of q]
    by (simp only: e'_def[symmetric] u_def[symmetric] z_def[symmetric])
  with fq have "Fin q = (if pow2 1024 \<le> of_int z * u then PInf else Fin (of_int z * u))"
    by (simp only:)
  then have zq: "of_int z * u = q"
    by (cases "pow2 1024 \<le> of_int z * u") simp_all
  define t where "t = nat (52 - e')"
  have t: "int t = 52 - e'" "t \<le> 1074" using e' by (simp_all add: t_def)
  have "u = pow2 (- int t)" by (simp add: u_def t(1))
  then have ut: "u = 1 / 2 ^ t" by (simp add: pow2_neg_nat)
  have "0 \<le> q / u" using assms(1) up by simp
  then have "(of_int 0 :: rat) \<le> q / u" by simp
  then have z0: "0 \<le> z" unfolding z_def by (rule round_even_ge)
  define a where "a = nat z"
  have a: "(of_nat a :: rat) = of_int z" using z0 by (simp add: a_def)
  have qa: "q = of_nat a / 2 ^ t" using zq by (simp add: a ut)
  have "q < pow2 (ilog2 q + 1)" using assms(1) by (rule ilog2_bounds(2))
  also have "\<dots> \<le> pow2 (e' + 1)" by (intro pow2_mono) (simp add: e'_def)
  finally have "q < pow2 (e' + 1)" .
  then have "q * 2 ^ t < pow2 (e' + 1) * 2 ^ t" by simp
  also have "\<dots> = pow2 (e' + 1) * pow2 (int t)" by (simp add: pow2_nat)
  also have "\<dots> = pow2 53" by (simp add: pow2_add[symmetric] t(1))
  finally have "q * 2 ^ t < 2 ^ 53" by (simp add: pow2_def)
  moreover have "q * 2 ^ t = of_nat a" by (simp add: qa)
  ultimately have "(of_nat a :: rat) < of_nat (2 ^ 53)" by simp
  then have "a < 2 ^ 53" by (simp only: of_nat_less_iff)
  with qa t(2) show ?thesis by blast
qed

lemma fl_small:
  assumes "0 < y" and "y < 1 / 2"
  shows "\<exists>v. fl y = Fin v \<and> 0 \<le> v \<and> v < 1"
proof -
  define e' where "e' = max (ilog2 y) (- 1022)"
  define u where "u = pow2 (e' - 52)"
  define z where "z = round_even (y / u)"
  have up: "0 < u" by (simp add: u_def pow2_pos)
  have "y < pow2 (- 1)" using assms(2) by (simp add: pow2_def)
  then have "ilog2 y < - 1" using assms(1) by (intro ilog2_less)
  then have "e' - 52 \<le> 0" by (simp add: e'_def)
  then have "u \<le> pow2 0" unfolding u_def by (rule pow2_mono)
  then have u1: "u \<le> 1" by (simp add: pow2_def)
  have "(of_int 0 :: rat) \<le> y / u" using assms(1) up by simp
  then have z0: "0 \<le> z" unfolding z_def by (rule round_even_ge)
  have "\<bar>of_int z - y / u\<bar> \<le> 1 / 2" unfolding z_def by (rule round_even_err)
  then have "of_int z \<le> y / u + 1 / 2" by linarith
  then have "of_int z * u \<le> (y / u + 1 / 2) * u" using up by (intro mult_right_mono) simp_all
  also have "\<dots> = y + u / 2" using up by (simp add: field_simps)
  also have "\<dots> < 1" using assms(2) u1 by linarith
  finally have v1: "of_int z * u < 1" .
  have v0: "0 \<le> of_int z * u" using z0 up by simp
  have "(1 :: rat) \<le> pow2 1024" by (simp add: pow2_def)
  with v1 have "\<not> pow2 1024 \<le> of_int z * u" by linarith
  then have "fl_pos y = Fin (of_int z * u)"
    using fl_pos_unfold_max[of y]
    by (simp only: e'_def[symmetric] u_def[symmetric] z_def[symmetric] if_False)
  with v0 v1 assms(1) show ?thesis by (simp add: fl_def)
qed

lemma round_even_less: "w < of_int Z - 1 / 2 \<Longrightarrow> round_even w < Z"
proof -
  assume "w < of_int Z - 1 / 2"
  moreover have "\<bar>of_int (round_even w) - w\<bar> \<le> 1 / 2" by (rule round_even_err)
  ultimately have "(of_int (round_even w) :: rat) < of_int Z" by linarith
  then show ?thesis by (simp only: of_int_less_iff)
qed


text \<open>
  One step of the decomposition on a double \<open>q = a / 2^t\<close>: the quotient by \<open>c\<close> is the
  quotient of the whole part, and taking it away is exact and leaves a double of the
  same shape.
\<close>

lemma double_step:
  fixes a t c :: nat
  assumes q: "q = of_nat a / 2 ^ t" and a: "a < 2 ^ 53" and t: "t \<le> 1074"
    and c: "0 < c" "c \<le> 2 ^ 20"
  shows "Math_floor (js_div (Fin q) (Fin (of_nat c))) = Fin (of_nat (nat \<lfloor>q\<rfloor> div c))"
    and "js_sub (Fin q) (js_mul (Fin (of_nat (nat \<lfloor>q\<rfloor> div c))) (Fin (of_nat c)))
         = Fin (q - of_nat (nat \<lfloor>q\<rfloor> div c * c))"
    and "\<exists>a'. q - of_nat (nat \<lfloor>q\<rfloor> div c * c) = of_nat a' / 2 ^ t \<and> a' < 2 ^ 53"
    and "nat \<lfloor>q - of_nat (nat \<lfloor>q\<rfloor> div c * c)\<rfloor> = nat \<lfloor>q\<rfloor> mod c"
proof -
  define N where "N = nat \<lfloor>q\<rfloor>"
  define k where "k = N div c"
  define C :: rat where "C = of_nat c"
  define y where "y = q / C"
  have Cp: "0 < C" "1 \<le> C" using c(1) by (simp_all add: C_def)
  have q0: "0 \<le> q" by (simp add: q)
  have tp: "(0 :: rat) < 2 ^ t" by simp
  have A: "(of_nat a :: rat) < 2 ^ 53" using rat_of_nat_less_pow[OF a] by simp
  have aq: "of_nat a = q * 2 ^ t" by (simp add: q)
  have "q * 1 \<le> q * 2 ^ t" using q0 by (intro mult_left_mono) simp_all
  then have q53: "q < 2 ^ 53" using A aq by simp
  have "0 \<le> \<lfloor>q\<rfloor>" using q0 by simp
  then have Nq: "(of_nat N :: rat) = of_int \<lfloor>q\<rfloor>" by (simp add: N_def)
  have N1: "of_nat N \<le> q" and N2: "q < of_nat N + 1" unfolding Nq by linarith+
  have kc: "k * c \<le> N" by (simp add: k_def)
  then have "(of_nat (k * c) :: rat) \<le> of_nat N" by (simp only: of_nat_le_iff)
  with N1 have kcq: "of_nat (k * c) \<le> q" by simp
  have "N < (k + 1) * c" using c(1) by (simp add: k_def dividend_less_times_div mult.commute)
  then have "Suc N \<le> (k + 1) * c" by simp
  then have "(of_nat (Suc N) :: rat) \<le> of_nat ((k + 1) * c)" by (simp only: of_nat_le_iff)
  with N2 have qlt: "q < of_nat ((k + 1) * c)" by simp
  have ylo: "of_nat k \<le> y"
    using kcq Cp(1) by (simp add: y_def C_def field_simps)
  have yhi: "y < of_nat k + 1"
    using qlt Cp(1) by (simp add: y_def C_def field_simps)
  have y0: "0 \<le> y" using q0 Cp(1) by (simp add: y_def)
  have dv: "js_div (Fin q) (Fin (of_nat c)) = fl y" using c(1) by (simp add: y_def C_def)
  text \<open>the quotient\<close>
  have fy: "\<exists>v. fl y = Fin v \<and> of_nat k \<le> v \<and> v < of_nat k + 1"
  proof (cases "y < 1 / 2")
    case True
    with ylo have "(of_nat k :: rat) < of_nat 1" by simp
    then have k0: "k = 0" by (simp only: of_nat_less_iff)
    show ?thesis
    proof (cases "y = 0")
      case True
      then show ?thesis using k0 by (simp add: fl_def)
    next
      case False
      with y0 have "0 < y" by simp
      from fl_small[OF this True] show ?thesis using k0 by simp
    qed
  next
    case False
    then have yh: "1 / 2 \<le> y" by simp
    have yp: "0 < y" using yh by simp
    have "pow2 (- 1022) \<le> pow2 (- 1)" by (intro pow2_mono) simp
    also have "\<dots> \<le> y" using yh by (simp add: pow2_def)
    finally have yn: "pow2 (- 1022) \<le> y" .
    have "y * 1 \<le> y * C" using y0 Cp(2) by (intro mult_left_mono) simp_all
    then have "y \<le> q" using Cp(1) by (simp add: y_def)
    with q53 have y53: "y < 2 ^ 53" by simp
    then have "y < pow2 53" by (simp add: pow2_def)
    moreover have "pow2 53 \<le> pow2 1023" by (intro pow2_mono) simp
    ultimately have y1023: "y < pow2 1023" by simp
    define e where "e = ilog2 y"
    define u where "u = pow2 (e - 52)"
    have up: "0 < u" by (simp add: u_def pow2_pos)
    have en: "- 1022 \<le> ilog2 y" using yp yn by (rule ilog2_ge)
    have e53: "e < 53" unfolding e_def using yp \<open>y < pow2 53\<close> by (intro ilog2_less)
    have val: "fl y = Fin (of_int (round_even (y / u)) * u)"
      using fl_pos_value[OF yp en y1023] yp by (simp add: fl_def u_def e_def)
    from fl_ge_nat[OF ylo yp yn y53] val
    have lo: "of_nat k \<le> of_int (round_even (y / u)) * u" by auto
    define d where "d = nat (52 - e)"
    have d: "int d = 52 - e" using e53 by (simp add: d_def)
    have "1 / u = pow2 (int d)" unfolding u_def d using pow2_inverse[of "e - 52"] by simp
    then have iu: "1 / u = 2 ^ d" by (simp add: pow2_nat)
    then have ud: "2 ^ d * u = 1" using up by (simp add: field_simps)
    define Z where "Z = (int k + 1) * 2 ^ d"
    have Zu: "of_int Z * u = of_nat k + 1"
    proof -
      have "of_int Z * u = (of_nat k + 1) * (2 ^ d * u)" by (simp add: Z_def mult.assoc)
      then show ?thesis by (simp only: ud) simp
    qed
    text \<open>the gap between \<open>y\<close> and the next whole number is more than half a unit in the last place\<close>
    have "q * 2 ^ t < of_nat ((k + 1) * c) * 2 ^ t" using qlt by simp
    then have "(of_nat a :: rat) < of_nat ((k + 1) * c * 2 ^ t)" by (simp add: aq)
    then have "a < (k + 1) * c * 2 ^ t" by (simp only: of_nat_less_iff)
    then have "Suc a \<le> (k + 1) * c * 2 ^ t" by simp
    then have "(of_nat (Suc a) :: rat) \<le> of_nat ((k + 1) * c * 2 ^ t)" by (simp only: of_nat_le_iff)
    then have "q * 2 ^ t + 1 \<le> (of_nat k + 1) * C * 2 ^ t" by (simp add: aq C_def algebra_simps)
    then have "(q * 2 ^ t + 1) / (2 ^ t * C) \<le> ((of_nat k + 1) * C * 2 ^ t) / (2 ^ t * C)"
      using Cp(1) by (intro divide_right_mono) simp_all
    moreover have "(q * 2 ^ t + 1) / (2 ^ t * C) = y + 1 / (2 ^ t * C)"
      using Cp(1) by (simp add: y_def add_divide_distrib)
    moreover have "((of_nat k + 1) * C * 2 ^ t) / (2 ^ t * C) = of_nat k + 1"
      using Cp(1) by simp
    ultimately have gap: "y + 1 / (2 ^ t * C) \<le> of_nat k + 1" by (simp only:)
    have "u = 2 * pow2 (e - 53)" unfolding u_def by (rule pow2_half)
    moreover have "pow2 (e - 53) = pow2 e * pow2 (- 53)" using pow2_add[of e "- 53"] by simp
    moreover have "pow2 e \<le> y" unfolding e_def using yp by (rule ilog2_bounds(1))
    ultimately have "u / 2 \<le> y * pow2 (- 53)"
      using pow2_pos[of "- 53"] by (simp add: mult_right_mono)
    also have "\<dots> = (q * 2 ^ t / 2 ^ 53) / (2 ^ t * C)" by (simp add: y_def pow2_def)
    also have "\<dots> < 1 / (2 ^ t * C)"
    proof -
      have "q * 2 ^ t / 2 ^ 53 < 1" using A by (simp add: aq)
      then show ?thesis using Cp(1) by (intro divide_strict_right_mono) simp_all
    qed
    finally have "u / 2 < 1 / (2 ^ t * C)" .
    with gap have "y < of_nat k + 1 - u / 2" by linarith
    then have "y / u < (of_nat k + 1 - u / 2) / u" using up by (rule divide_strict_right_mono)
    also have "\<dots> = (of_nat k + 1) * (1 / u) - 1 / 2" using up by (simp add: field_simps)
    also have "\<dots> = of_int Z - 1 / 2" by (simp add: iu Z_def)
    finally have "round_even (y / u) < Z" by (rule round_even_less)
    then have "(of_int (round_even (y / u)) :: rat) \<le> of_int (Z - 1)" by (simp only: of_int_le_iff)
    then have "of_int (round_even (y / u)) * u \<le> of_int (Z - 1) * u"
      using up by (intro mult_right_mono) simp_all
    also have "\<dots> = of_int Z * u - u" by (simp add: algebra_simps)
    also have "\<dots> < of_nat k + 1" using up by (simp add: Zu)
    finally have hi: "of_int (round_even (y / u)) * u < of_nat k + 1" .
    from val lo hi show ?thesis by blast
  qed
  then obtain v where v: "fl y = Fin v" "of_nat k \<le> v" "v < of_nat k + 1" by blast
  have "\<lfloor>v\<rfloor> = int k" by (rule floor_unique) (simp_all add: v)
  then show "Math_floor (js_div (Fin q) (Fin (of_nat c))) = Fin (of_nat (nat \<lfloor>q\<rfloor> div c))"
    using v(1) by (simp only: dv Math_floor.simps k_def N_def) simp
  text \<open>what is left\<close>
  have "k * c * 2 ^ t \<le> a"
  proof -
    have "of_nat (k * c) * 2 ^ t \<le> q * 2 ^ t" using kcq by simp
    then have "(of_nat (k * c * 2 ^ t) :: rat) \<le> of_nat a" by (simp add: aq)
    then show ?thesis by (simp only: of_nat_le_iff)
  qed
  then have "(of_nat (a - k * c * 2 ^ t) :: rat) = of_nat a - of_nat (k * c * 2 ^ t)"
    by (simp only: of_nat_diff)
  then have rep: "q - of_nat (k * c) = of_nat (a - k * c * 2 ^ t) / 2 ^ t"
    by (simp add: q field_simps)
  have a': "a - k * c * 2 ^ t < 2 ^ 53" using a by simp
  from rep a' show "\<exists>a'. q - of_nat (nat \<lfloor>q\<rfloor> div c * c) = of_nat a' / 2 ^ t \<and> a' < 2 ^ 53"
    unfolding k_def N_def by blast
  have r: "fl (q - of_nat (k * c)) = Fin (q - of_nat (k * c))"
    unfolding rep using a' t by (rule fl_fraction)
  have "k * c < 2 ^ 53"
  proof -
    have "(of_nat (k * c) :: rat) < of_nat (2 ^ 53)" using kcq q53 by simp
    then show ?thesis by (simp only: of_nat_less_iff)
  qed
  then have m: "fl (of_nat (k * c)) = Fin (of_nat (k * c))" by (rule fl_nat)
  have "js_mul (Fin (of_nat k)) (Fin (of_nat c)) = fl (of_nat (k * c))"
    by (simp only: js_mul.simps of_nat_mult)
  then have "js_sub (Fin q) (js_mul (Fin (of_nat k)) (Fin (of_nat c))) = fl (q - of_nat (k * c))"
    by (simp only: m js_sub.simps)
  then have "js_sub (Fin q) (js_mul (Fin (of_nat k)) (Fin (of_nat c))) = Fin (q - of_nat (k * c))"
    by (simp only: r)
  then show "js_sub (Fin q) (js_mul (Fin (of_nat (nat \<lfloor>q\<rfloor> div c))) (Fin (of_nat c)))
         = Fin (q - of_nat (nat \<lfloor>q\<rfloor> div c * c))"
    unfolding k_def N_def .
  have "\<lfloor>q - of_nat (k * c)\<rfloor> = \<lfloor>q\<rfloor> - int (k * c)"
  proof -
    have "q - of_nat (k * c) = q - of_int (int (k * c))" by simp
    then show ?thesis by (simp only: floor_diff_of_int)
  qed
  moreover have "nat (\<lfloor>q\<rfloor> - int (k * c)) = nat \<lfloor>q\<rfloor> - nat (int (k * c))"
    using \<open>0 \<le> \<lfloor>q\<rfloor>\<close> by (intro nat_diff_distrib') simp_all
  ultimately have "nat \<lfloor>q - of_nat (k * c)\<rfloor> = N - k * c" by (simp only: N_def nat_int)
  also have "\<dots> = N mod c" by (simp add: k_def minus_div_mult_eq_mod)
  finally show "nat \<lfloor>q - of_nat (nat \<lfloor>q\<rfloor> div c * c)\<rfloor> = nat \<lfloor>q\<rfloor> mod c"
    unfolding k_def N_def .
qed

subsection \<open>Doubles from \<open>2^53\<close>\<close>

text \<open>A multiple of \<open>2^j\<close> with a factor below \<open>2^53\<close> is a double.\<close>

lemma fl_scaled:
  assumes "a < 2 ^ 53" and "j \<le> 970"
  shows "fl (of_nat a * 2 ^ j) = Fin (of_nat a * 2 ^ j)"
proof (cases "a = 0")
  case True
  then show ?thesis by (simp add: fl_def)
next
  case False
  define x :: rat where "x = of_nat a * 2 ^ j"
  have xp: "0 < x" using False by (simp add: x_def)
  define e where "e = ilog2 x"
  have x2: "x = of_nat a * pow2 (int j)" by (simp add: x_def pow2_nat)
  have "(of_nat a :: rat) < 2 ^ 53" using rat_of_nat_less_pow[OF assms(1)] by simp
  then have "x < pow2 53 * pow2 (int j)"
    unfolding x2 using pow2_pos[of "int j"] by (simp add: pow2_def)
  then have xlt: "x < pow2 (53 + int j)" by (simp add: pow2_add[symmetric])
  then have e_hi: "e < 53 + int j" unfolding e_def using xp by (intro ilog2_less)
  have "(1 :: rat) \<le> of_nat a" using False by simp
  then have "pow2 (int j) \<le> x" unfolding x2 using pow2_pos[of "int j"] by simp
  then have e_lo: "int j \<le> e" unfolding e_def using xp by (intro ilog2_ge)
  define d where "d = nat (52 - e + int j)"
  have d: "int d = 52 - e + int j" using e_hi by (simp add: d_def)
  have inv: "1 / pow2 (e - 52) = pow2 (52 - e)"
    using pow2_inverse[of "e - 52"] by simp
  have "x / pow2 (e - 52) = x * (1 / pow2 (e - 52))" by simp
  also have "\<dots> = x * pow2 (52 - e)" by (simp only: inv)
  also have "\<dots> = of_nat a * (pow2 (int j) * pow2 (52 - e))" by (simp add: x2)
  also have "pow2 (int j) * pow2 (52 - e) = pow2 (int d)"
    by (simp add: pow2_add[symmetric] d add.commute)
  also have "of_nat a * pow2 (int d) = of_int (int a * 2 ^ d)" by (simp add: pow2_nat)
  finally have ex: "x / pow2 (ilog2 x - 52) = of_int (int a * 2 ^ d)" by (simp add: e_def)
  have n: "- 1022 \<le> ilog2 x" using e_lo by (simp add: e_def)
  have "pow2 (53 + int j) \<le> pow2 1024" using assms(2) by (intro pow2_mono) simp
  with xlt have "x < pow2 1024" by simp
  with n have "fl_pos x = Fin x" using ex by (rule fl_pos_exact)
  with xp show ?thesis by (simp add: fl_def x_def)
qed

text \<open>From \<open>2^53\<close> to \<open>2^60\<close> the doubles are whole multiples of \<open>2^j\<close> for some \<open>j\<close> up to 7.\<close>

lemma double_whole:
  assumes "2 ^ 53 \<le> q" and "q < 2 ^ 60" and "fl q = Fin q"
  shows "\<exists>a j. q = of_nat a * 2 ^ j \<and> a < 2 ^ 53 \<and> j \<le> 7"
proof -
  have "(0 :: rat) < 2 ^ 53" by simp
  then have qp: "0 < q" using assms(1) by (rule less_le_trans)
  define e where "e = ilog2 q"
  define u where "u = pow2 (e - 52)"
  define z where "z = round_even (q / u)"
  have up: "0 < u" by (simp add: u_def pow2_pos)
  have "pow2 53 \<le> q" using assms(1) by (simp add: pow2_def)
  then have e53: "53 \<le> e" unfolding e_def using qp by (intro ilog2_ge)
  have "q < pow2 60" using assms(2) by (simp add: pow2_def)
  then have e60: "e < 60" unfolding e_def using qp by (intro ilog2_less)
  have n: "- 1022 \<le> ilog2 q" using e53 by (simp add: e_def)
  have fq: "fl_pos q = Fin q" using qp assms(3) by (simp add: fl_def)
  have "fl_pos q = (if pow2 1024 \<le> of_int z * u then PInf else Fin (of_int z * u))"
    using fl_pos_unfold[OF n] by (simp only: e_def[symmetric] u_def[symmetric] z_def[symmetric])
  with fq have "Fin q = (if pow2 1024 \<le> of_int z * u then PInf else Fin (of_int z * u))"
    by (simp only:)
  then have zq: "of_int z * u = q"
    by (cases "pow2 1024 \<le> of_int z * u") simp_all
  define j where "j = nat (e - 52)"
  have j: "int j = e - 52" "j \<le> 7" using e53 e60 by (simp_all add: j_def)
  have "u = pow2 (int j)" by (simp add: u_def j(1))
  then have uj: "u = 2 ^ j" by (simp add: pow2_nat)
  have "(of_int 0 :: rat) \<le> q / u" using qp up by simp
  then have z0: "0 \<le> z" unfolding z_def by (rule round_even_ge)
  define a where "a = nat z"
  have a: "(of_nat a :: rat) = of_int z" using z0 by (simp add: a_def)
  have qa: "q = of_nat a * 2 ^ j" using zq by (simp add: a uj)
  have "q < pow2 (e + 1)" unfolding e_def using qp by (rule ilog2_bounds(2))
  also have "pow2 (e + 1) = pow2 (53 + int j)"
  proof -
    have "e + 1 = 53 + int j" using j(1) by simp
    then show ?thesis by (simp only:)
  qed
  also have "\<dots> = pow2 53 * pow2 (int j)" by (rule pow2_add)
  also have "\<dots> = 2 ^ 53 * 2 ^ j" by (simp add: pow2_nat pow2_def)
  finally have "of_nat a * (2 :: rat) ^ j < 2 ^ 53 * 2 ^ j" by (simp only: qa)
  then have "(of_nat a :: rat) < 2 ^ 53" by simp
  then have "(of_nat a :: rat) < of_nat (2 ^ 53)" by simp
  then have "a < 2 ^ 53" by (simp only: of_nat_less_iff)
  with qa j(2) show ?thesis by blast
qed

text \<open>
  The first step of the decomposition on such a double, when \<open>2^j\<close> divides the divisor:
  quotient and remainder are those of the whole numbers.
\<close>

lemma whole_step:
  fixes a j c' :: nat
  assumes a: "a < 2 ^ 53" and j: "j \<le> 970" and c: "0 < c'" "c' \<le> 2 ^ 20"
  shows "Math_floor (js_div (Fin (of_nat a * 2 ^ j)) (Fin (of_nat c' * 2 ^ j)))
         = Fin (of_nat (a * 2 ^ j div (c' * 2 ^ j)))"
    and "js_sub (Fin (of_nat a * 2 ^ j))
           (js_mul (Fin (of_nat (a * 2 ^ j div (c' * 2 ^ j)))) (Fin (of_nat c' * 2 ^ j)))
         = Fin (of_nat (a * 2 ^ j mod (c' * 2 ^ j)))"
proof -
  define k where "k = a div c'"
  have dv: "a * 2 ^ j div (c' * 2 ^ j) = k" by (simp add: k_def)
  have md: "a * 2 ^ j mod (c' * 2 ^ j) = a mod c' * 2 ^ j" by simp
  have Cp: "(of_nat c' :: rat) \<noteq> 0" using c(1) by simp
  have "(of_nat a * 2 ^ j) / (of_nat c' * 2 ^ j) = (of_nat a :: rat) / of_nat c'" by simp
  then have "js_div (Fin (of_nat a * 2 ^ j)) (Fin (of_nat c' * 2 ^ j))
             = js_div (Fin (of_nat a)) (Fin (of_nat c'))"
    using Cp by simp
  then show "Math_floor (js_div (Fin (of_nat a * 2 ^ j)) (Fin (of_nat c' * 2 ^ j)))
         = Fin (of_nat (a * 2 ^ j div (c' * 2 ^ j)))"
    using floor_div[OF a c] by (simp only: dv k_def)
  have le: "k * c' \<le> a" by (simp add: k_def)
  then have p: "k * c' < 2 ^ 53" using a by (rule le_less_trans)
  have "of_nat k * (of_nat c' * 2 ^ j) = (of_nat (k * c') :: rat) * 2 ^ j" by simp
  then have "js_mul (Fin (of_nat k)) (Fin (of_nat c' * 2 ^ j)) = fl (of_nat (k * c') * 2 ^ j)"
    by (simp only: js_mul.simps)
  also have "\<dots> = Fin (of_nat (k * c') * 2 ^ j)" using p j by (rule fl_scaled)
  finally have m: "js_mul (Fin (of_nat k)) (Fin (of_nat c' * 2 ^ j))
                   = Fin (of_nat (k * c') * 2 ^ j)" .
  have "a mod c' = a - k * c'" by (simp add: k_def minus_div_mult_eq_mod)
  then have r: "(of_nat (a mod c') :: rat) = of_nat a - of_nat (k * c')"
    using le by (simp only: of_nat_diff)
  have eq: "of_nat a * 2 ^ j - of_nat (k * c') * 2 ^ j = (of_nat (a mod c') :: rat) * 2 ^ j"
    unfolding r by (rule left_diff_distrib[symmetric])
  have lt: "a mod c' < 2 ^ 53" using mod_less_eq_dividend[of a c'] a by (rule le_less_trans)
  have "js_sub (Fin (of_nat a * 2 ^ j)) (js_mul (Fin (of_nat k)) (Fin (of_nat c' * 2 ^ j)))
        = fl (of_nat a * 2 ^ j - of_nat (k * c') * 2 ^ j)"
    by (simp only: m js_sub.simps)
  also have "\<dots> = fl (of_nat (a mod c') * 2 ^ j)" by (simp only: eq)
  also have "\<dots> = Fin (of_nat (a mod c') * 2 ^ j)" using lt j by (rule fl_scaled)
  also have "of_nat (a mod c') * 2 ^ j = (of_nat (a mod c' * 2 ^ j) :: rat)" by simp
  finally show "js_sub (Fin (of_nat a * 2 ^ j))
           (js_mul (Fin (of_nat (a * 2 ^ j div (c' * 2 ^ j)))) (Fin (of_nat c' * 2 ^ j)))
         = Fin (of_nat (a * 2 ^ j mod (c' * 2 ^ j)))"
    by (simp only: dv md)
qed


subsection \<open>Uptime of a double\<close>

text \<open>
  What \<open>fmtUptime\<close> returns once the day count and the seconds left after it are known:
  the two later steps work on any double below \<open>2^53\<close>.
\<close>

lemma fmtUptime_rest:
  fixes d a1 t :: nat
  assumes q0: "0 \<le> q"
    and D: "Math_floor (js_div (Fin q) (Fin 86400)) = Fin (of_nat d)"
    and S1: "js_sub (Fin q) (js_mul (Fin (of_nat d)) (Fin 86400)) = Fin r1"
    and q1: "r1 = of_nat a1 / 2 ^ t" and a1: "a1 < 2 ^ 53" and t: "t \<le> 1074"
    and d: "d < 2 ^ 53"
  shows "fmtUptime H (JNum (Fin q))
         = (if 0 < d then dec d @ ''d '' else [])
           @ pad2 (nat \<lfloor>r1\<rfloor> div 3600) @ '':'' @ pad2 (nat \<lfloor>r1\<rfloor> mod 3600 div 60)
           @ '':'' @ pad2 (nat \<lfloor>r1\<rfloor> mod 60)"
proof -
  define N1 where "N1 = nat \<lfloor>r1\<rfloor>"
  define r2 where "r2 = r1 - of_nat (N1 div 3600 * 3600)"
  define N2 where "N2 = nat \<lfloor>r2\<rfloor>"
  define r3 where "r3 = r2 - of_nat (N2 div 60 * 60)"
  have Hh: "Math_floor (js_div (Fin r1) (Fin 3600)) = Fin (of_nat (N1 div 3600))"
    and S2: "js_sub (Fin r1) (js_mul (Fin (of_nat (N1 div 3600))) (Fin 3600)) = Fin r2"
    and R2: "\<exists>a'. r2 = of_nat a' / 2 ^ t \<and> a' < 2 ^ 53"
    and F2: "N2 = N1 mod 3600"
    using double_step[OF q1 a1 t, of 3600] by (simp_all add: N1_def r2_def N2_def)
  from R2 obtain a2 where q2: "r2 = of_nat a2 / 2 ^ t" and a2: "a2 < 2 ^ 53" by blast
  have M: "Math_floor (js_div (Fin r2) (Fin 60)) = Fin (of_nat (N2 div 60))"
    and S3: "js_sub (Fin r2) (js_mul (Fin (of_nat (N2 div 60))) (Fin 60)) = Fin r3"
    and R3: "\<exists>a'. r3 = of_nat a' / 2 ^ t \<and> a' < 2 ^ 53"
    and F3: "nat \<lfloor>r3\<rfloor> = N2 mod 60"
    using double_step[OF q2 a2 t, of 60] by (simp_all add: N2_def r3_def)
  from R3 have "0 \<le> r3" by auto
  then have "0 \<le> \<lfloor>r3\<rfloor>" by simp
  then have "(of_int \<lfloor>r3\<rfloor> :: rat) = of_nat (nat \<lfloor>r3\<rfloor>)" by simp
  then have fl4: "Math_floor (Fin r3) = Fin (of_nat (N2 mod 60))" by (simp add: F3)
  have "r1 * 1 \<le> r1 * 2 ^ t" by (intro mult_left_mono) (simp_all add: q1)
  then have "r1 \<le> of_nat a1" by (simp add: q1)
  then have "\<lfloor>r1\<rfloor> \<le> \<lfloor>(of_nat a1 :: rat)\<rfloor>" by (rule floor_mono)
  then have "N1 \<le> a1" by (simp add: N1_def)
  then have n1: "N1 < 2 ^ 53" using a1 by (rule le_less_trans)
  have s1: "num2str H (Fin (of_nat d)) = dec d"
    using d by (rule num2str_nat)
  have s2: "num2str H (Fin (of_nat (N1 div 3600))) = dec (N1 div 3600)"
    using le_less_trans[OF div_le_dividend n1] by (rule num2str_nat)
  have n2: "N2 < 2 ^ 53"
    unfolding F2 using mod_less_eq_dividend n1 by (rule le_less_trans)
  then have s3: "num2str H (Fin (of_nat (N2 div 60))) = dec (N2 div 60)"
    using le_less_trans[OF div_le_dividend] by (intro num2str_nat) blast
  have s4: "num2str H (Fin (of_nat (N2 mod 60))) = dec (N2 mod 60)"
    using le_less_trans[OF mod_less_eq_dividend n2] by (rule num2str_nat)
  have m2: "N1 mod 3600 mod 60 = N1 mod 60"
    by (rule mod_mod_cancel) simp
  have "fmtUptime H (JNum (Fin q))
        = (if 0 < d then dec d @ ''d '' else [])
          @ pad2 (N1 div 3600) @ '':'' @ pad2 (N2 div 60) @ '':'' @ pad2 (N2 mod 60)"
    unfolding fmtUptime_def using q0
    by (simp add: Let_def D S1 Hh S2 M S3 fl4 s1 s2 s3 s4 padStart_dec
          del: js_div.simps js_mul.simps js_sub.simps Math_floor.simps num2str.simps)
  then have "fmtUptime H (JNum (Fin q))
        = (if 0 < d then dec d @ ''d '' else [])
          @ pad2 (N1 div 3600) @ '':'' @ pad2 (N1 mod 3600 div 60) @ '':'' @ pad2 (N1 mod 60)"
    by (simp only: F2 m2)
  then show ?thesis by (simp only: N1_def)
qed

text \<open>
  Every double from 0 up to \<open>2^60\<close>, whole or not, is formatted as the specification
  formats its whole seconds.
\<close>

lemma fmtUptime_double:
  assumes "is_double q" and "0 \<le> q" and "q < 2 ^ 60"
  shows "fmtUptime H (JNum (Fin q)) = spec_formatUptime (nat \<lfloor>q\<rfloor>)"
proof -
  define N where "N = nat \<lfloor>q\<rfloor>"
  from assms(1) have fq: "fl q = Fin q" by (simp add: is_double_def)
  have "0 \<le> \<lfloor>q\<rfloor>" using assms(2) by simp
  then have "(of_nat N :: rat) = of_int \<lfloor>q\<rfloor>" by (simp add: N_def)
  then have "(of_nat N :: rat) \<le> q" by simp
  with assms(3) have "(of_nat N :: rat) < of_nat (2 ^ 60)" by simp
  then have "N < 2 ^ 60" by (simp only: of_nat_less_iff)
  then have "N < 2 ^ 53 * 86400" by simp
  then have d: "N div 86400 < 2 ^ 53" by (rule less_mult_imp_div_less)
  have "\<exists>r1 a1 t.
          Math_floor (js_div (Fin q) (Fin 86400)) = Fin (of_nat (N div 86400))
          \<and> js_sub (Fin q) (js_mul (Fin (of_nat (N div 86400))) (Fin 86400)) = Fin r1
          \<and> r1 = of_nat a1 / 2 ^ t \<and> a1 < 2 ^ 53 \<and> t \<le> 1074
          \<and> nat \<lfloor>r1\<rfloor> = N mod 86400"
  proof (cases "q < 2 ^ 53")
    case True
    have "\<exists>a t. q = of_nat a / 2 ^ t \<and> a < 2 ^ 53 \<and> t \<le> 1074"
    proof (cases "q = 0")
      case True
      then have "q = of_nat 0 / 2 ^ 0 \<and> (0 :: nat) < 2 ^ 53 \<and> (0 :: nat) \<le> 1074" by simp
      then show ?thesis by blast
    next
      case False
      with assms(2) have "0 < q" by simp
      then show ?thesis using True fq by (rule double_fraction)
    qed
    then obtain a t where qa: "q = of_nat a / 2 ^ t" and a: "a < 2 ^ 53" and t: "t \<le> 1074"
      by blast
    define r1 where "r1 = q - of_nat (N div 86400 * 86400)"
    have "Math_floor (js_div (Fin q) (Fin 86400)) = Fin (of_nat (N div 86400))"
      and "js_sub (Fin q) (js_mul (Fin (of_nat (N div 86400))) (Fin 86400)) = Fin r1"
      and "\<exists>a'. r1 = of_nat a' / 2 ^ t \<and> a' < 2 ^ 53"
      and "nat \<lfloor>r1\<rfloor> = N mod 86400"
      using double_step[OF qa a t, of 86400] by (simp_all add: N_def r1_def)
    with t show ?thesis by blast
  next
    case False
    then have "2 ^ 53 \<le> q" by simp
    from double_whole[OF this assms(3) fq] obtain a j where
      qa: "q = of_nat a * 2 ^ j" and a: "a < 2 ^ 53" and j: "j \<le> 7" by blast
    define c' :: nat where "c' = 675 * 2 ^ (7 - j)"
    have "(2 :: nat) ^ (7 - j) * 2 ^ j = 2 ^ (7 - j + j)" by (simp only: power_add)
    also have "\<dots> = 2 ^ 7" using j by simp
    finally have p7: "(2 :: nat) ^ (7 - j) * 2 ^ j = 128" by simp
    have "c' * 2 ^ j = 675 * (2 ^ (7 - j) * 2 ^ j)" by (simp only: c'_def mult.assoc)
    also have "\<dots> = 86400" by (simp only: p7)
    finally have cn: "c' * 2 ^ j = 86400" .
    then have "(of_nat (c' * 2 ^ j) :: rat) = of_nat 86400" by (simp only:)
    then have cq: "of_nat c' * 2 ^ j = (86400 :: rat)" by simp
    have c0: "0 < c'" by (simp add: c'_def)
    have "c' * 1 \<le> c' * 2 ^ j" by (intro mult_le_mono2) simp
    then have c20: "c' \<le> 2 ^ 20" using cn by simp
    have j970: "j \<le> 970" using j by simp
    have qn: "q = of_nat (a * 2 ^ j)" by (simp add: qa)
    have "\<lfloor>q\<rfloor> = int (a * 2 ^ j)" unfolding qn by (rule floor_of_nat)
    then have Na: "a * 2 ^ j = N" by (simp only: N_def nat_int)
    have lt: "N mod 86400 < 2 ^ 53"
    proof -
      have "N mod 86400 < 86400" by simp
      then show ?thesis by simp
    qed
    have "Math_floor (js_div (Fin q) (Fin 86400)) = Fin (of_nat (N div 86400))"
      using whole_step(1)[OF a j970 c0 c20] by (simp only: cq cn Na qa[symmetric])
    moreover have "js_sub (Fin q) (js_mul (Fin (of_nat (N div 86400))) (Fin 86400))
                   = Fin (of_nat (N mod 86400))"
      using whole_step(2)[OF a j970 c0 c20] by (simp only: cq cn Na qa[symmetric])
    moreover have "(of_nat (N mod 86400) :: rat) = of_nat (N mod 86400) / 2 ^ 0" by simp
    moreover have "nat \<lfloor>(of_nat (N mod 86400) :: rat)\<rfloor> = N mod 86400" by simp
    moreover have "(0 :: nat) \<le> 1074" by simp
    ultimately show ?thesis using lt by blast
  qed
  then obtain r1 a1 t where
    D: "Math_floor (js_div (Fin q) (Fin 86400)) = Fin (of_nat (N div 86400))"
    and S1: "js_sub (Fin q) (js_mul (Fin (of_nat (N div 86400))) (Fin 86400)) = Fin r1"
    and q1: "r1 = of_nat a1 / 2 ^ t" and a1: "a1 < 2 ^ 53" and t: "t \<le> 1074"
    and F1: "nat \<lfloor>r1\<rfloor> = N mod 86400"
    by blast
  have m1: "N mod 86400 mod 3600 = N mod 3600" by (rule mod_mod_cancel) simp
  have m2: "N mod 86400 mod 60 = N mod 60" by (rule mod_mod_cancel) simp
  have "fmtUptime H (JNum (Fin q)) = spec_formatUptime N"
    using fmtUptime_rest[OF assms(2) D S1 q1 a1 t d, of H]
    by (simp only: F1 m1 m2 spec_formatUptime_def Let_def)
  then show ?thesis by (simp only: N_def)
qed

subsection \<open>Rounding a given number\<close>

lemma round_even_near: "\<bar>y - of_int z\<bar> < 1 / 2 \<Longrightarrow> round_even y = z"
proof -
  assume "\<bar>y - of_int z\<bar> < 1 / 2"
  moreover have "\<bar>of_int (round_even y) - y\<bar> \<le> 1 / 2" by (rule round_even_err)
  ultimately have "\<bar>(of_int (round_even y) :: rat) - of_int z\<bar> < 1" by linarith
  then have "\<bar>(of_int (round_even y - z) :: rat)\<bar> < of_int 1" by simp
  then have "\<bar>round_even y - z\<bar> < 1" by (simp only: of_int_abs[symmetric] of_int_less_iff)
  then show ?thesis by simp
qed

lemma round_even_tie: "y = of_int z + 1 / 2 \<Longrightarrow> round_even y = (if even z then z else z + 1)"
proof -
  assume y: "y = of_int z + 1 / 2"
  have "\<lfloor>y\<rfloor> = z" by (rule floor_unique) (simp_all add: y)
  then show ?thesis by (simp add: round_even_def Let_def y)
qed

lemma fl_round:
  assumes "pow2 e \<le> x" and "x < pow2 (e + 1)" and "- 1022 \<le> e" and "e < 1023"
    and "pow2 (e - 52) = u" and "round_even (x / u) = z"
  shows "fl x = Fin (of_int z * u)"
proof -
  have xp: "0 < x" using pow2_pos[of e] assms(1) by (rule less_le_trans)
  have "e \<le> ilog2 x" using xp assms(1) by (rule ilog2_ge)
  moreover have "ilog2 x < e + 1" using xp assms(2) by (rule ilog2_less)
  ultimately have e: "ilog2 x = e" by simp
  have "pow2 (e + 1) \<le> pow2 1023" using assms(4) by (intro pow2_mono) simp
  with assms(2) have "x < pow2 1023" by simp
  with xp have "fl_pos x = Fin (of_int (round_even (x / pow2 (ilog2 x - 52))) * pow2 (ilog2 x - 52))"
    using assms(3) by (intro fl_pos_value) (simp_all add: e)
  then have "fl_pos x = Fin (of_int z * u)" by (simp only: e assms(5,6))
  with xp show ?thesis by (simp add: fl_def)
qed

subsection \<open>Where the decomposition stops being exact\<close>

lemma fmtUptime_PInf: "fmtUptime H (JNum PInf) = ''Infinityd NaN:NaN:NaN''"
  by (simp add: fmtUptime_def padStart_def)

text \<open>
  The first double that is formatted wrongly is \<open>2^60 + 36352\<close>: the product of the day
  count and 86400 lies halfway between two doubles and is rounded up to the number itself.
\<close>

lemma fmtUptime_first_wrong:
  "fmtUptime H (JNum (Fin 1152921504606883328)) = ''13343998895913d 00:00:00''"
proof -
  have y: "fl (1152921504606883328 / 86400) = Fin (of_int 6832127434707457 * (1 / 512))"
  proof (rule fl_round[where e = 43])
    show "pow2 43 \<le> 1152921504606883328 / 86400" by (simp add: pow2_def)
    show "1152921504606883328 / 86400 < pow2 (43 + 1)" by (simp add: pow2_def)
    show "pow2 (43 - 52) = 1 / 512" by (simp add: pow2_def)
    show "round_even (1152921504606883328 / 86400 / (1 / 512)) = 6832127434707457"
      by (rule round_even_near) simp
  qed simp_all
  have f: "\<lfloor>(6832127434707457 / 512 :: rat)\<rfloor> = 13343998895913"
    by (rule floor_unique) simp_all
  have D: "Math_floor (js_div (Fin 1152921504606883328) (Fin 86400))
           = Fin (of_nat 13343998895913)"
    using y f by simp
  have p: "fl 1152921504606883200 = Fin (of_int 4503599627370638 * 256)"
  proof (rule fl_round[where e = 60])
    show "pow2 60 \<le> 1152921504606883200" by (simp add: pow2_def)
    show "1152921504606883200 < pow2 (60 + 1)" by (simp add: pow2_def)
    show "pow2 (60 - 52) = 256" by (simp add: pow2_def)
    have "round_even (1152921504606883200 / 256)
          = (if even (4503599627370637 :: int) then 4503599627370637 else 4503599627370637 + 1)"
      by (rule round_even_tie) simp
    then show "round_even (1152921504606883200 / 256) = 4503599627370638" by simp
  qed simp_all
  have S1: "js_sub (Fin 1152921504606883328) (js_mul (Fin (of_nat 13343998895913)) (Fin 86400))
            = Fin 0"
    using p by (simp add: fl_def)
  have "fmtUptime H (JNum (Fin 1152921504606883328))
        = (if 0 < (13343998895913 :: nat) then dec 13343998895913 @ ''d '' else [])
          @ pad2 (nat \<lfloor>0 :: rat\<rfloor> div 3600) @ '':'' @ pad2 (nat \<lfloor>0 :: rat\<rfloor> mod 3600 div 60)
          @ '':'' @ pad2 (nat \<lfloor>0 :: rat\<rfloor> mod 60)"
    by (rule fmtUptime_rest[OF _ D S1, of 0 0]) simp_all
  then show ?thesis by (simp add: pad2_def dec.simps digit_def)
qed

lemma spec_formatUptime_first_wrong:
  "spec_formatUptime 1152921504606883328 = ''13343998895913d 00:02:08''"
  by (simp add: spec_formatUptime_def Let_def pad2_def dec.simps digit_def)

lemma is_double_first_wrong: "is_double 1152921504606883328"
  using fl_scaled[of 4503599627370638 8] by (simp add: is_double_def)

lemma is_double_fraction: "a < 2 ^ 53 \<Longrightarrow> t \<le> 1074 \<Longrightarrow> is_double (of_nat a / 2 ^ t)"
  by (simp add: is_double_def fl_fraction)

text \<open>
  Claim C8, as amended. \<open>fmtUptime\<close> returns the dash when its argument is not a number,
  is negative or is \<open>NaN\<close>. On every finite number of seconds from 0 up to \<open>2^60\<close>, whole
  or not, it is the specification's format of the whole seconds: days, hours, minutes
  and seconds of the decomposition, \<open>HH:MM:SS\<close> zero-padded, with the day count and \<open>d\<close> in
  front only when there is at least one day. In particular 90061 gives \<open>1d 01:01:01\<close>,
  61 gives \<open>00:01:01\<close> and -1 gives the dash.
\<close>

theorem fmtUptime_rule:
  "(\<not> is_number v \<longrightarrow> fmtUptime H v = emdash)
   \<and> (\<not> js_le (Fin 0) x \<longrightarrow> fmtUptime H (JNum x) = emdash)
   \<and> (is_double q \<and> 0 \<le> q \<and> q < 2 ^ 60 \<longrightarrow>
        fmtUptime H (JNum (Fin q)) = spec_formatUptime (nat \<lfloor>q\<rfloor>))
   \<and> (n < 2 ^ 53 \<longrightarrow> fmtUptime H (JNum (Fin (of_nat n))) = spec_formatUptime n)
   \<and> fmtUptime H (JNum (Fin 90061)) = ''1d 01:01:01''
   \<and> fmtUptime H (JNum (Fin 61)) = ''00:01:01''
   \<and> fmtUptime H (JNum (Fin (- 1))) = emdash"
  by (simp add: fmtUptime_placeholder fmtUptime_nat fmtUptime_examples fmtUptime_double)

theorem fmtUptime_rule_witness:
  "\<not> is_number (JStr ''1 day'') \<and> fmtUptime sample_host (JStr ''1 day'') = emdash
   \<and> \<not> js_le (Fin 0) NaN \<and> fmtUptime sample_host (JNum NaN) = emdash
   \<and> is_double (24691 / 2) \<and> fmtUptime sample_host (JNum (Fin (24691 / 2))) = ''03:25:45''
   \<and> is_double 1152921504606846848
   \<and> fmtUptime sample_host (JNum (Fin 1152921504606846848)) = ''13343998895912d 13:54:08''
   \<and> fmtUptime sample_host (JNum (Fin (of_nat 86399))) = ''23:59:59''
   \<and> fmtUptime sample_host (JNum (Fin (of_nat 8640000))) = ''100d 00:00:00''"
proof -
  have d: "is_double (24691 / 2)" using is_double_fraction[of 24691 1] by simp
  have f: "\<lfloor>(24691 / 2 :: rat)\<rfloor> = 12345" by (rule floor_unique) simp_all
  have d': "is_double 1152921504606846848"
    using fl_scaled[of 9007199254740991 7] by (simp add: is_double_def)
  show ?thesis
    using fmtUptime_rule[of "JStr ''1 day''" sample_host NaN "24691 / 2" 86399]
          fmtUptime_rule[of "JStr ''1 day''" sample_host NaN 1152921504606846848 8640000] d d'
    by (simp add: f spec_formatUptime_def pad2_def Let_def dec.simps digit_def)
qed

text \<open>
  Infinity is a number and not negative, and has no days, hours, minutes and seconds.
  And from \<open>2^60\<close> on the double arithmetic of the function is no longer exact:
  \<open>2^60 + 36352\<close> seconds are 13343998895913 days, 2 minutes and 8 seconds.
\<close>

theorem fmtUptime_large_counterexample:
  "is_number (JNum PInf) \<and> js_le (Fin 0) PInf
   \<and> fmtUptime sample_host (JNum PInf) = ''Infinityd NaN:NaN:NaN''
   \<and> is_double 1152921504606883328
   \<and> fmtUptime sample_host (JNum (Fin 1152921504606883328)) = ''13343998895913d 00:00:00''
   \<and> spec_formatUptime (nat \<lfloor>1152921504606883328 :: rat\<rfloor>) = ''13343998895913d 00:02:08''"
  by (simp add: fmtUptime_PInf fmtUptime_first_wrong spec_formatUptime_first_wrong
        is_double_first_wrong)

end
